theory Spec2Isabelle
  imports
    Main
    "HOL-Library.Sublist"
    "HOL-Library.Char_ord"
    "HOL-Library.List_Lexorder"
begin

section \<open>JavaScript values\<close>

text \<open>
  \<open>OutputGenerator.generate\<close> receives arbitrary JavaScript values for its
  \<open>instructions\<close> and \<open>profiles\<close> arguments. An object is represented by the list of
  its own enumerable properties in the order in which \<open>Object.keys\<close> reports them, an
  array by the list of its elements.
\<close>

datatype jsval =
    JUndefined
  | JNull
  | JBool bool
  | JNum int
  | JBigInt int
  | JStr string
  | JSymbol string
  | JFun
  | JArr "jsval list"
  | JObj "(string \<times> jsval) list"

text \<open>The \<open>typeof\<close> operator; \<open>typeof null\<close> is \<open>object\<close>, and so is the type of an array.\<close>

fun typeof :: "jsval \<Rightarrow> string" where
  "typeof JUndefined = ''undefined''"
| "typeof JNull = ''object''"
| "typeof (JBool b) = ''boolean''"
| "typeof (JNum n) = ''number''"
| "typeof (JBigInt n) = ''bigint''"
| "typeof (JStr s) = ''string''"
| "typeof (JSymbol s) = ''symbol''"
| "typeof JFun = ''function''"
| "typeof (JArr xs) = ''object''"
| "typeof (JObj kvs) = ''object''"

definition is_digit :: "char \<Rightarrow> bool" where
  "is_digit c \<longleftrightarrow> c \<in> set ''0123456789''"

definition digit_val :: "char \<Rightarrow> nat" where
  "digit_val c = of_char c - 48"

definition dec_val :: "string \<Rightarrow> nat" where
  "dec_val s = foldl (\<lambda>n c. 10 * n + digit_val c) 0 s"

fun dec_str :: "nat \<Rightarrow> string" where
  "dec_str n =
     (if n < 10 then [char_of (48 + n)]
      else dec_str (n div 10) @ [char_of (48 + n mod 10)])"

text \<open>
  An array index is a property key that is the canonical decimal form of an integer
  between \<open>0\<close> and \<open>2\<^sup>3\<^sup>2 - 2\<close>. The own property keys of an ordinary object are
  enumerated with the array indices first, in ascending numeric order, followed by the
  other string keys in the order in which the properties were created.
\<close>

definition is_array_index :: "string \<Rightarrow> bool" where
  "is_array_index s \<longleftrightarrow>
     s \<noteq> [] \<and> list_all is_digit s \<and> (s = ''0'' \<or> hd s \<noteq> CHR ''0'') \<and> dec_val s < 2 ^ 32 - 1"

definition property_order :: "(string \<times> 'a) list \<Rightarrow> (string \<times> 'a) list" where
  "property_order es =
     sort_key (\<lambda>e. dec_val (fst e)) (filter (\<lambda>e. is_array_index (fst e)) es)
     @ filter (\<lambda>e. \<not> is_array_index (fst e)) es"

text \<open>Creating a data property: an existing key keeps its place and takes the new value.\<close>

fun set_property :: "(string \<times> 'a) list \<Rightarrow> string \<times> 'a \<Rightarrow> (string \<times> 'a) list" where
  "set_property [] kv = [kv]"
| "set_property (e # es) kv = (if fst e = fst kv then kv # es else e # set_property es kv)"

definition from_entries :: "(string \<times> 'a) list \<Rightarrow> (string \<times> 'a) list" where
  "from_entries entries = property_order (foldl set_property [] entries)"

definition own_entries :: "jsval \<Rightarrow> (string \<times> jsval) list" where
  "own_entries v =
     (case v of
        JObj kvs \<Rightarrow> kvs
      | JArr xs \<Rightarrow> zip (map dec_str [0..<length xs]) xs
      | _ \<Rightarrow> [])"

definition object_keys :: "jsval \<Rightarrow> string list" where
  "object_keys data = map fst (own_entries data)"

definition get_prop :: "jsval \<Rightarrow> string \<Rightarrow> jsval" where
  "get_prop data k = (case map_of (own_entries data) k of Some v \<Rightarrow> v | None \<Rightarrow> JUndefined)"


section \<open>Inheritance sorter\<close>

text \<open>
  \<open>#generateSortedOutput\<close> (OutputGenerator): \<open>data[k]?.inherits\<close> is used only when it
  is an array; its elements are kept when \<open>keys.includes\<close> finds them, which is the case
  for strings that are keys of \<open>data\<close> and for nothing else.
\<close>

definition inherits_of :: "jsval \<Rightarrow> jsval list option" where
  "inherits_of v =
     (case v of
        JObj kvs \<Rightarrow> (case map_of kvs ''inherits'' of Some (JArr ps) \<Rightarrow> Some ps | _ \<Rightarrow> None)
      | _ \<Rightarrow> None)"

fun includes_key :: "string list \<Rightarrow> jsval \<Rightarrow> string option" where
  "includes_key keys (JStr p) = (if p \<in> set keys then Some p else None)"
| "includes_key keys _ = None"

definition present_parents :: "jsval \<Rightarrow> string list \<Rightarrow> string \<Rightarrow> string list" where
  "present_parents data keys k =
     (case inherits_of (get_prop data k) of
        Some ps \<Rightarrow> List.map_filter (includes_key keys) ps
      | None \<Rightarrow> [])"

text \<open>
  The closure \<open>visit\<close> with its two captured variables, the set \<open>visited\<close> and the array
  \<open>result\<close>, passed as a state; \<open>for_each_visit\<close> is \<open>forEach(visit)\<close>.
\<close>

type_synonym visit_state = "string set \<times> string list"

function visit :: "jsval \<Rightarrow> string list \<Rightarrow> string \<Rightarrow> visit_state \<Rightarrow> visit_state"
  and for_each_visit :: "jsval \<Rightarrow> string list \<Rightarrow> string list \<Rightarrow> visit_state \<Rightarrow> visit_state"
where
  "visit data keys k (visited, result) =
     (if k \<in> visited then (visited, result)
      else (case for_each_visit data keys (present_parents data keys k) (insert k visited, result) of
              (visited', result') \<Rightarrow> (visited', result' @ [k])))"
| "for_each_visit data keys [] s = s"
| "for_each_visit data keys (p # ps) s = for_each_visit data keys ps (visit data keys p s)"
  by pat_completeness auto

text \<open>
  The recursion ends because every call that does not return at once adds a key to
  \<open>visited\<close>, and \<open>visited\<close> never shrinks.
\<close>

termination
proof (relation "inv_image (less_than <*lex*> less_than)
    (\<lambda>x. case x of
       Inl (data, keys, k, s) \<Rightarrow> (card (insert k (set keys) - fst s), 0)
     | Inr (data, keys, ps, s) \<Rightarrow> (card ((set keys \<union> set ps) - fst s), Suc (length ps)))",
    goal_cases)
  case 1
  then show ?case by (intro wf_inv_image wf_lex_prod wf_less_than)
next
  case (2 data keys k visited result)
  have "p \<in> set keys" if "includes_key keys v = Some p" for v p
    using that by (cases v) (auto split: if_splits)
  then have "set (present_parents data keys k) \<subseteq> set keys"
    by (auto simp: present_parents_def List.map_filter_def split: option.splits)
  with 2 have "set keys \<union> set (present_parents data keys k) - insert k visited
        \<subset> insert k (set keys) - visited"
    by auto
  then have "card (set keys \<union> set (present_parents data keys k) - insert k visited)
        < card (insert k (set keys) - visited)"
    by (intro psubset_card_mono) auto
  then show ?case by simp
next
  case (3 data keys p ps s)
  have "card (insert p (set keys) - fst s) \<le> card (set keys \<union> set (p # ps) - fst s)"
    by (intro card_mono) auto
  then show ?case by auto
next
  case (4 data keys p ps s)
  have grows:
    "visit_for_each_visit_dom (Inl (d, ks, k, t)) \<Longrightarrow> fst t \<subseteq> fst (visit d ks k t)"
    "visit_for_each_visit_dom (Inr (d, ks, qs, t)) \<Longrightarrow> fst t \<subseteq> fst (for_each_visit d ks qs t)"
    for d ks k qs t
  proof (induct d ks k t and d ks qs t rule: visit_for_each_visit.pinduct)
    case (1 data keys k visited result)
    then show ?case by (auto simp: visit.psimps split: prod.splits)
  next
    case (2 data keys s)
    then show ?case by (simp add: for_each_visit.psimps)
  next
    case (3 data keys p ps s)
    then show ?case by (auto simp: for_each_visit.psimps)
  qed
  have "card (set keys \<union> set ps - fst (visit data keys p s))
        \<le> card (set keys \<union> set (p # ps) - fst s)"
    using grows(1) [OF 4] by (intro card_mono) auto
  then show ?case by auto
qed

definition visit_order :: "jsval \<Rightarrow> string list" where
  "visit_order data =
     (let keys = object_keys data
      in snd (for_each_visit data keys keys ({}, [])))"

definition sorted_units :: "jsval \<Rightarrow> (string \<times> jsval) list" where
  "sorted_units data = from_entries (map (\<lambda>k. (k, get_prop data k)) (rev (visit_order data)))"

text \<open>Position of the first occurrence, and the order of two keys in a key sequence.\<close>

definition position :: "'a list \<Rightarrow> 'a \<Rightarrow> nat" where
  "position xs a = length (takeWhile (\<lambda>x. x \<noteq> a) xs)"

definition precedes :: "'a list \<Rightarrow> 'a \<Rightarrow> 'a \<Rightarrow> bool" where
  "precedes xs a b \<longleftrightarrow> a \<in> set xs \<and> b \<in> set xs \<and> position xs a < position xs b"

text \<open>The inheritance graph: an edge from each unit to each of its listed, present parents.\<close>

definition inherits_edges :: "jsval \<Rightarrow> (string \<times> string) list" where
  "inherits_edges data =
     (let keys = object_keys data
      in concat (map (\<lambda>k. map (Pair k) (present_parents data keys k)) keys))"


section \<open>Errors\<close>

text \<open>
  The codes of \<open>MemoryBuilderError\<close> that the modelled functions raise, and the two other
  kinds of exception that can escape them: a \<open>TypeError\<close> (a property read on \<open>null\<close>)
  and a failed file-system call.
\<close>

datatype error =
    ERR_API_REQUEST
  | ERR_RAW_REQUEST
  | INVALID_INSTRUCTIONS
  | INVALID_PROFILES
  | ZIP_CREATE_ERROR
  | OUTPUT_WRITE_ERROR
  | TypeError
  | SystemError


section \<open>Reflection reader\<close>

text \<open>
  The remote repository answers two requests for a path: the directory listing and the
  raw file content. Status 404 is an answer of its own; any other failure is an error.
\<close>

record item =
  item_type :: string
  item_name :: string

datatype dir_response = DirData "item list" | DirNotFound | DirFailed

datatype raw_response = RawData string | RawNotFound | RawFailed

record reflection =
  path :: string
  extension :: string
  contents :: "string \<Rightarrow> dir_response"
  raw_contents :: "string \<Rightarrow> raw_response"

definition endsWith :: "string \<Rightarrow> string \<Rightarrow> bool" where
  "endsWith s x \<longleftrightarrow> length x \<le> length s \<and> drop (length s - length x) s = x"

definition fetchDirectory :: "reflection \<Rightarrow> string \<Rightarrow> error + item list option" where
  "fetchDirectory r subPath =
     (let fullPath = (if subPath \<noteq> [] then path r @ ''/'' @ subPath else path r)
      in case contents r fullPath of
           DirData items \<Rightarrow> Inr (Some items)
         | DirNotFound \<Rightarrow> Inr None
         | DirFailed \<Rightarrow> Inl ERR_API_REQUEST)"

definition fetchReflection :: "reflection \<Rightarrow> string \<Rightarrow> error + string option" where
  "fetchReflection r filePath =
     (let fullPath = path r @ ''/'' @ filePath
      in case raw_contents r fullPath of
           RawData text \<Rightarrow> Inr (Some text)
         | RawNotFound \<Rightarrow> Inr None
         | RawFailed \<Rightarrow> Inl ERR_RAW_REQUEST)"

text \<open>\<open>path.split('/').pop()\<close> and the test \<open>/^\d/\<close> on it.\<close>

definition last_segment :: "string \<Rightarrow> string" where
  "last_segment p = rev (takeWhile (\<lambda>c. c \<noteq> CHR ''/'') (rev p))"

definition isDigitFile :: "string \<Rightarrow> bool" where
  "isDigitFile p = (case last_segment p of [] \<Rightarrow> False | c # cs \<Rightarrow> is_digit c)"

text \<open>
  \<open>entries.sort((a, b) => isDigitFile(a) - isDigitFile(b))\<close>: the comparator orders by
  the flag read as 0 or 1, and \<open>Array.prototype.sort\<close> is stable.
\<close>

definition sort_entries :: "string list \<Rightarrow> string list" where
  "sort_entries entries = sort_key (\<lambda>p. if isDigitFile p then 1 else 0 :: nat) entries"

text \<open>
  \<open>list\<close>, with the \<open>for\<close> loop over the items as \<open>list_items\<close> (its last argument is the
  array \<open>entries\<close> built so far). As in \<open>#fetchEntries\<close>, \<open>if (content)\<close> fails for \<open>null\<close>
  and for the empty string. The remote tree is not known to be finite, so the first
  argument bounds the depth of the recursion; \<open>None\<close> means that the bound was reached.
\<close>

fun list_entries :: "nat \<Rightarrow> reflection \<Rightarrow> string \<Rightarrow> (error + string list) option"
  and list_items :: "nat \<Rightarrow> reflection \<Rightarrow> string \<Rightarrow> item list \<Rightarrow> string list
                       \<Rightarrow> (error + string list) option"
where
  "list_entries 0 r subPath = None"
| "list_entries (Suc n) r subPath =
     (case fetchDirectory r subPath of
        Inl e \<Rightarrow> Some (Inl e)
      | Inr None \<Rightarrow>
          (if subPath \<noteq> [] then
             (case fetchReflection r (subPath @ extension r) of
                Inl e \<Rightarrow> Some (Inl e)
              | Inr None \<Rightarrow> Some (Inr [])
              | Inr (Some content) \<Rightarrow>
                  (if content \<noteq> []
                   then Some (Inr [path r @ ''/'' @ subPath @ extension r])
                   else Some (Inr [])))
           else Some (Inr []))
      | Inr (Some items) \<Rightarrow>
          (case list_items n r subPath items [] of
             Some (Inr entries) \<Rightarrow> Some (Inr (sort_entries entries))
           | failed \<Rightarrow> failed))"
| "list_items n r subPath [] entries = Some (Inr entries)"
| "list_items n r subPath (i # items) entries =
     (if item_type i = ''dir'' then
        (case list_entries n r
                (if subPath \<noteq> [] then subPath @ ''/'' @ item_name i else item_name i) of
           Some (Inr nested) \<Rightarrow> list_items n r subPath items (entries @ nested)
         | failed \<Rightarrow> failed)
      else if item_type i = ''file'' \<and> endsWith (item_name i) (extension r) then
        list_items n r subPath items
          (entries @ [(if subPath \<noteq> [] then path r @ ''/'' @ subPath else path r)
                      @ ''/'' @ item_name i])
      else list_items n r subPath items entries)"

text \<open>
  \<open>#fetchEntries\<close>. The test \<open>if (content)\<close> fails for \<open>null\<close> and for the empty string,
  which are the two falsy values that \<open>#fetchReflection\<close> can return.
\<close>

datatype 'd document = RawText string | Parsed 'd

record 'd entry =
  entry_path :: string
  entry_reflection :: "'d document"

fun fetch_loop :: "(string \<Rightarrow> 'd) \<Rightarrow> reflection \<Rightarrow> bool \<Rightarrow> string list \<Rightarrow> 'd entry list
                     \<Rightarrow> error + 'd entry list" where
  "fetch_loop md r raw [] entries = Inr entries"
| "fetch_loop md r raw (file # files) entries =
     (let filePath = drop (length (path r) + 1) file
      in case fetchReflection r filePath of
           Inl e \<Rightarrow> Inl e
         | Inr None \<Rightarrow> fetch_loop md r raw files entries
         | Inr (Some content) \<Rightarrow>
             (if content \<noteq> []
              then fetch_loop md r raw files
                     (entries @ [\<lparr>entry_path = file,
                                  entry_reflection =
                                    (if raw then RawText content else Parsed (md content))\<rparr>])
              else fetch_loop md r raw files entries))"

definition fetchEntries :: "(string \<Rightarrow> 'd) \<Rightarrow> reflection \<Rightarrow> string list \<Rightarrow> bool
                              \<Rightarrow> error + 'd entry list" where
  "fetchEntries md r filePaths raw = fetch_loop md r raw filePaths []"

text \<open>
  \<open>get\<close>. What one call decides from the listing is \<open>get_plan\<close>: the paths to fetch, the
  arguments of the recursive call, or the empty answer. \<open>files.slice(-1)\<close> on a non-empty
  array is its last element; \<open>latestDir.slice(n, -1)\<close> drops the last character and the
  first \<open>n\<close>. The parameters are explicit: a caller that leaves \<open>latest\<close> out passes
  \<open>!date\<close>. As in \<open>list\<close>, the first argument of \<open>get\<close> bounds the depth of the recursion.
\<close>

datatype plan = FetchEntries "string list" | Recurse string bool | NoEntries

definition file_entries :: "reflection \<Rightarrow> string list \<Rightarrow> string list" where
  "file_entries r items = filter (\<lambda>e. endsWith e (extension r)) items"

definition dir_entries :: "string list \<Rightarrow> string list" where
  "dir_entries items = filter (\<lambda>e. endsWith e ''/'') items"

definition get_plan :: "reflection \<Rightarrow> string \<Rightarrow> bool \<Rightarrow> string list \<Rightarrow> plan" where
  "get_plan r date latest items =
     (let files = file_entries r items;
          dirs = dir_entries items
      in if files \<noteq> [] then FetchEntries (if latest then [last files] else files)
         else if dirs \<noteq> [] \<and> latest then
           (let latestDir = last dirs
            in Recurse (drop (length (path r) + 1) (butlast latestDir)) True)
         else if date \<noteq> [] \<and> items = [] then
           (let filePath = (if endsWith date (extension r) then date else date @ extension r)
            in FetchEntries [path r @ ''/'' @ filePath])
         else NoEntries)"

fun get :: "(string \<Rightarrow> 'd) \<Rightarrow> nat \<Rightarrow> reflection \<Rightarrow> string \<Rightarrow> bool \<Rightarrow> bool
              \<Rightarrow> (error + 'd entry list) option" where
  "get md 0 r date latest raw = None"
| "get md (Suc n) r date latest raw =
     (case list_entries (Suc n) r date of
        None \<Rightarrow> None
      | Some (Inl e) \<Rightarrow> Some (Inl e)
      | Some (Inr items) \<Rightarrow>
          (case get_plan r date latest items of
             FetchEntries toFetch \<Rightarrow> Some (fetchEntries md r toFetch raw)
           | Recurse date' latest' \<Rightarrow> get md n r date' latest' raw
           | NoEntries \<Rightarrow> Some (Inr [])))"


section \<open>Injection into the host document\<close>

text \<open>
  \<open>#injectData\<close> and \<open>#clearPayloadData\<close> are called with the markers \<open>instructions\<close>
  and \<open>memory\<close> only. The pattern is the start comment, a lazy run of any characters
  and the end comment; without the global flag \<open>replace\<close> rewrites the leftmost match,
  which starts at the first start comment and ends with the first end comment after it.
\<close>

datatype marker = Instructions | Memory

fun marker_name :: "marker \<Rightarrow> string" where
  "marker_name Instructions = ''instructions''"
| "marker_name Memory = ''memory''"

definition start_marker :: "marker \<Rightarrow> string" where
  "start_marker mk = ''<!-- framework-'' @ marker_name mk @ ''-start -->''"

definition end_marker :: "marker \<Rightarrow> string" where
  "end_marker mk = ''<!-- framework-'' @ marker_name mk @ ''-end -->''"

fun split_first :: "string \<Rightarrow> string \<Rightarrow> (string \<times> string) option" where
  "split_first needle [] = (if needle = [] then Some ([], []) else None)"
| "split_first needle (c # cs) =
     (if prefix needle (c # cs) then Some ([], drop (length needle) (c # cs))
      else (case split_first needle cs of
              None \<Rightarrow> None
            | Some (before, after) \<Rightarrow> Some (c # before, after)))"

definition occurs_in :: "string \<Rightarrow> string \<Rightarrow> bool" where
  "occurs_in needle s \<longleftrightarrow> split_first needle s \<noteq> None"

definition match_block :: "marker \<Rightarrow> string \<Rightarrow> (string \<times> string \<times> string) option" where
  "match_block mk content =
     (case split_first (start_marker mk) content of
        None \<Rightarrow> None
      | Some (before, rest) \<Rightarrow>
          (case split_first (end_marker mk) rest of
             None \<Rightarrow> None
           | Some (between, after) \<Rightarrow> Some (before, between, after)))"

text \<open>
  The replacement is a string, so \<open>replace\<close> expands its dollar patterns with the
  operation \<open>GetSubstitution\<close> of the language. It reads the template from the left; at
  each step it takes a reference \<open>ref\<close> off the front and appends the replacement of
  the reference to the result. The references are \<open>$$\<close>, \<open>$`\<close>, \<open>$&\<close>, \<open>$'\<close>, and
  \<open>$n\<close> or \<open>$nn\<close> for the captures; any other character stands for itself. A
  two-digit index larger than the number of captures is read as a one-digit index
  followed by a digit; an index that names no capture leaves the reference as it is.
  The pattern has no named groups, so \<open>$<\<close> stands for itself. \<open>next_ref\<close> gives the
  replacement and the length of the reference at the front of a template that is not
  empty; \<open>CHR 0x60\<close> is the backtick and \<open>CHR 0x27\<close> the apostrophe.
\<close>

record regexp_match =
  m_before :: string
  m_matched :: string
  m_after :: string
  m_captures :: "string list"

definition one_digit_ref :: "regexp_match \<Rightarrow> char \<Rightarrow> string \<times> nat" where
  "one_digit_ref m d =
     (let index = digit_val d
      in if 1 \<le> index \<and> index \<le> length (m_captures m)
         then (m_captures m ! (index - 1), 2)
         else ([CHR ''$'', d], 2))"

definition two_digit_ref :: "regexp_match \<Rightarrow> char \<Rightarrow> char \<Rightarrow> string \<times> nat" where
  "two_digit_ref m d e =
     (let index = 10 * digit_val d + digit_val e
      in if 1 \<le> index
         then (m_captures m ! (index - 1), 3)
         else ([CHR ''$'', d, e], 3))"

fun next_ref :: "regexp_match \<Rightarrow> string \<Rightarrow> string \<times> nat" where
  "next_ref m [] = ([], 1)"
| "next_ref m [c] = ([c], 1)"
| "next_ref m (c # d # rest) =
     (if c \<noteq> CHR ''$'' then ([c], 1)
      else if d = CHR ''$'' then (''$'', 2)
      else if d = CHR 0x60 then (m_before m, 2)
      else if d = CHR ''&'' then (m_matched m, 2)
      else if d = CHR 0x27 then (m_after m, 2)
      else if is_digit d then
        (case rest of
           [] \<Rightarrow> one_digit_ref m d
         | e # rest' \<Rightarrow>
             (if is_digit e \<and> 10 * digit_val d + digit_val e \<le> length (m_captures m)
              then two_digit_ref m d e
              else one_digit_ref m d))
      else if d = CHR ''<'' then ([c, d], 2)
      else ([c], 1))"

function substitute :: "regexp_match \<Rightarrow> string \<Rightarrow> string" where
  "substitute m [] = []"
| "substitute m (c # cs) =
     (case next_ref m (c # cs) of
        (refReplacement, refLength) \<Rightarrow>
          refReplacement @ substitute m (drop refLength (c # cs)))"
  by pat_completeness auto

termination
proof (relation "measure (\<lambda>(m, template). length template)", goal_cases)
  case 1
  then show ?case by simp
next
  case (2 m c cs refReplacement refLength)
  have "1 \<le> snd (next_ref m t)" for t
    by (induction m t rule: next_ref.induct)
      (auto simp: one_digit_ref_def two_digit_ref_def Let_def split: list.splits)
  from this [of "c # cs"] 2 have "1 \<le> refLength" by (metis snd_conv)
  then show ?case by simp
qed

definition replace_block :: "marker \<Rightarrow> string \<Rightarrow> string \<Rightarrow> string" where
  "replace_block mk replacement content =
     (case match_block mk content of
        None \<Rightarrow> content
      | Some (before, between, after) \<Rightarrow>
          before
          @ substitute \<lparr>m_before = before,
                        m_matched = start_marker mk @ between @ end_marker mk,
                        m_after = after,
                        m_captures = [start_marker mk, end_marker mk]\<rparr> replacement
          @ after)"

text \<open>
  The two replacement strings; \<open>CHR 0x0A\<close> is the line feed, and \<open>fence\<close> the three
  backticks of a code fence.
\<close>

definition emptyBlock :: string where
  "emptyBlock = ''$1'' @ [CHR 0x0A] @ ''$2''"

definition fence :: string where
  "fence = [CHR 0x60, CHR 0x60, CHR 0x60]"

definition jsonBlock :: "string \<Rightarrow> string" where
  "jsonBlock json =
     ''$1'' @ [CHR 0x0A] @ fence @ ''json'' @ [CHR 0x0A] @ json
     @ [CHR 0x0A] @ fence @ [CHR 0x0A] @ ''$2''"

definition inject_text :: "marker \<Rightarrow> string \<Rightarrow> string \<Rightarrow> string" where
  "inject_text mk json content = replace_block mk (jsonBlock json) content"

definition clear_text :: "marker \<Rightarrow> string \<Rightarrow> string" where
  "clear_text mk content = replace_block mk emptyBlock content"


section \<open>Output generator\<close>

text \<open>
  The configuration read by the generator: the plugin registry
  (\<open>settings.plugins\<close>, a mapping from a group to a list of plugins with their skills)
  and the paths under \<open>settings.path\<close>. A plugin may come without \<open>skills\<close>.
\<close>

record plugin_entry =
  plugin_name :: string
  plugin_version :: string
  skills :: "(string \<times> string) list option"

record skill_info =
  pluginName :: string
  pluginVersion :: string
  skillName :: string

record settings =
  plugins :: "(string \<times> plugin_entry list) list"
  skill_local :: string
  skill_container :: string
  package_output :: string
  package_excludes :: "string list"
  profile :: string

text \<open>\<open>skills?.[skillKey]\<close> as a condition: the skill name, when there is a non-empty one.\<close>

definition skill_of :: "plugin_entry \<Rightarrow> string \<Rightarrow> string option" where
  "skill_of e skillKey =
     (case skills e of
        None \<Rightarrow> None
      | Some kvs \<Rightarrow>
          (case map_of kvs skillKey of
             None \<Rightarrow> None
           | Some name \<Rightarrow> if name \<noteq> [] then Some name else None))"

fun find_skill :: "plugin_entry list \<Rightarrow> string \<Rightarrow> skill_info option" where
  "find_skill [] skillKey = None"
| "find_skill (e # es) skillKey =
     (case skill_of e skillKey of
        Some name \<Rightarrow>
          Some \<lparr>pluginName = plugin_name e, pluginVersion = plugin_version e, skillName = name\<rparr>
      | None \<Rightarrow> find_skill es skillKey)"

definition findSkillByKey :: "settings \<Rightarrow> string \<Rightarrow> skill_info option" where
  "findSkillByKey cfg skillKey = find_skill (concat (map snd (plugins cfg))) skillKey"

text \<open>
  \<open>#generateSortedOutput\<close>: the sorted units under the wrapper key, with the version of
  the plugin that holds the methodology skill. Reading \<open>pluginVersion\<close> of \<open>null\<close> is a
  \<open>TypeError\<close>.
\<close>

record sorted_output =
  wrapper_key :: string
  units :: "(string \<times> jsval) list"
  version :: string

definition generateSortedOutput :: "settings \<Rightarrow> jsval \<Rightarrow> string \<Rightarrow> error + sorted_output" where
  "generateSortedOutput cfg data key =
     (let sorted = sorted_units data
      in case findSkillByKey cfg ''methodology'' of
           None \<Rightarrow> Inl TypeError
         | Some skillInfo \<Rightarrow>
             Inr \<lparr>wrapper_key = key, units = sorted, version = pluginVersion skillInfo\<rparr>)"

text \<open>
  The file system and the console are the state. A step returns its value or the
  exception it throws, together with the state it leaves behind.
\<close>

record world =
  files :: "string \<rightharpoonup> string"
  directories :: "string set"
  stdout :: "string list"

type_synonym 'a io = "world \<Rightarrow> (error + 'a) \<times> world"

definition return :: "'a \<Rightarrow> 'a io" where
  "return x = (\<lambda>w. (Inr x, w))"

definition throw :: "error \<Rightarrow> 'a io" where
  "throw e = (\<lambda>w. (Inl e, w))"

definition bind :: "'a io \<Rightarrow> ('a \<Rightarrow> 'b io) \<Rightarrow> 'b io" where
  "bind step rest = (\<lambda>w. case step w of (Inl e, w') \<Rightarrow> (Inl e, w') | (Inr x, w') \<Rightarrow> rest x w')"

text \<open>
  The directory that a written file needs: the part of the path before its last
  separator.
\<close>

definition dirname :: "string \<Rightarrow> string" where
  "dirname p = rev (drop 1 (dropWhile (\<lambda>c. c \<noteq> CHR ''/'') (rev p)))"

definition existsSync :: "world \<Rightarrow> string \<Rightarrow> bool" where
  "existsSync w p \<longleftrightarrow> p \<in> dom (files w) \<or> p \<in> directories w"

definition readFileSync :: "string \<Rightarrow> string io" where
  "readFileSync p = (\<lambda>w. case files w p of Some text \<Rightarrow> (Inr text, w) | None \<Rightarrow> (Inl SystemError, w))"

definition writeFileSync :: "string \<Rightarrow> string \<Rightarrow> unit io" where
  "writeFileSync p text =
     (\<lambda>w. if dirname p \<in> directories w \<and> p \<notin> directories w
          then (Inr (), w\<lparr>files := (files w)(p \<mapsto> text)\<rparr>)
          else (Inl SystemError, w))"

text \<open>
  What the generator is constructed with (\<open>config\<close>, \<open>container\<close>, \<open>profileName\<close>) and
  what it asks its surroundings: whether the process runs in the container, the home
  directory, \<open>path.join\<close> and \<open>path.resolve\<close> of the platform (with their
  normalisation of the segments), the serialisations, the archiver and the time stamp.
\<close>

record output_object =
  out_paths :: "string list option"
  out_profile :: string
  out_timestamp :: string

record generator =
  config :: settings
  container :: bool
  profileName :: string
  isClaudeContainer :: bool
  homedir :: string
  path_join :: "string list \<Rightarrow> string"
  path_resolve :: "string list \<Rightarrow> string"
  stringify :: "sorted_output \<Rightarrow> string"
  render :: "output_object \<Rightarrow> string"
  tar :: "world \<Rightarrow> string \<Rightarrow> string \<Rightarrow> string list \<Rightarrow> string option"
  timestamp :: string

definition local_skill_path :: "generator \<Rightarrow> skill_info \<Rightarrow> string" where
  "local_skill_path g skillInfo =
     path_join g [homedir g, skill_local (config g), pluginName skillInfo,
                  pluginVersion skillInfo, ''skills'', skillName skillInfo, ''SKILL.md'']"

definition clearPayloadData :: "generator \<Rightarrow> marker \<Rightarrow> unit io" where
  "clearPayloadData g mk =
     (case findSkillByKey (config g) ''methodology'' of
        None \<Rightarrow> throw TypeError
      | Some skillInfo \<Rightarrow>
          (let skillPath = local_skill_path g skillInfo
           in bind (readFileSync skillPath)
                (\<lambda>content. writeFileSync skillPath (clear_text mk content))))"

definition injectData :: "generator \<Rightarrow> marker \<Rightarrow> sorted_output \<Rightarrow> unit io" where
  "injectData g mk data =
     (case findSkillByKey (config g) ''methodology'' of
        None \<Rightarrow> throw TypeError
      | Some skillInfo \<Rightarrow>
          (let skillPath =
                 (if container g \<and> isClaudeContainer g
                  then path_join g [skill_container (config g), skillName skillInfo, ''SKILL.md'']
                  else local_skill_path g skillInfo)
           in bind (readFileSync skillPath)
                (\<lambda>content. writeFileSync skillPath (inject_text mk (stringify g data) content))))"


text \<open>
  \<open>#createZip\<close>: \<open>null\<close> when the skill directory is absent. Inside the \<open>try\<close> an old
  archive is unlinked (which fails on a directory) and the archiver runs; every failure
  there becomes \<open>ZIP_CREATE_ERROR\<close>.
\<close>

definition createZip :: "generator \<Rightarrow> string \<Rightarrow> string \<Rightarrow> string \<Rightarrow> string option io" where
  "createZip g pName pVersion sName =
     (let outputPath = package_output (config g);
          sourcePath =
            path_resolve g [homedir g, skill_local (config g), pName, pVersion, ''skills''];
          zipPath = outputPath @ ''/'' @ sName @ ''.zip'';
          skillPath = path_join g [sourcePath, sName]
      in (\<lambda>w. if \<not> existsSync w skillPath then (Inr None, w)
              else if zipPath \<in> directories w then (Inl ZIP_CREATE_ERROR, w)
              else (let w' = w\<lparr>files := (files w)(zipPath := None)\<rparr>
                    in case tar g w' sourcePath sName (package_excludes (config g)) of
                         None \<Rightarrow> (Inl ZIP_CREATE_ERROR, w')
                       | Some archive \<Rightarrow>
                           (Inr (Some zipPath), w'\<lparr>files := (files w')(zipPath \<mapsto> archive)\<rparr>))))"

text \<open>
  The three nested loops of \<open>generate\<close> over the plugin groups, their plugins and the
  values of \<open>skills\<close>; \<open>Object.values\<close> of a missing \<open>skills\<close> is a \<open>TypeError\<close>.
\<close>

fun zip_skills :: "generator \<Rightarrow> plugin_entry \<Rightarrow> string list \<Rightarrow> string list \<Rightarrow> string list io" where
  "zip_skills g e [] paths = return paths"
| "zip_skills g e (sName # rest) paths =
     bind (createZip g (plugin_name e) (plugin_version e) sName)
       (\<lambda>zipPath. zip_skills g e rest (case zipPath of Some p \<Rightarrow> paths @ [p] | None \<Rightarrow> paths))"

fun zip_plugins :: "generator \<Rightarrow> plugin_entry list \<Rightarrow> string list \<Rightarrow> string list io" where
  "zip_plugins g [] paths = return paths"
| "zip_plugins g (e # es) paths =
     (case skills e of
        None \<Rightarrow> throw TypeError
      | Some kvs \<Rightarrow>
          bind (zip_skills g e (map snd kvs) paths) (\<lambda>paths'. zip_plugins g es paths'))"

definition writeJsonFile :: "generator \<Rightarrow> string \<Rightarrow> sorted_output \<Rightarrow> string io" where
  "writeJsonFile g filename data =
     (let filePath = path_join g [package_output (config g), filename]
      in bind (writeFileSync filePath (stringify g data)) (\<lambda>u. return filePath))"

text \<open>\<open>generateOutput\<close> returns the output object, or prints it and returns \<open>true\<close>.\<close>

datatype generated = Returned output_object | Printed

definition generateOutput :: "generator \<Rightarrow> string list option \<Rightarrow> bool \<Rightarrow> generated io" where
  "generateOutput g paths returnOnly =
     (let out = \<lparr>out_paths = paths, out_profile = profileName g, out_timestamp = timestamp g\<rparr>
      in if returnOnly then return (Returned out)
         else (\<lambda>w. (Inr Printed, w\<lparr>stdout := stdout w @ [render g out]\<rparr>)))"

definition inject_both :: "generator \<Rightarrow> bool \<Rightarrow> sorted_output \<Rightarrow> sorted_output \<Rightarrow> unit io" where
  "inject_both g skipInject instructionsData memoryData =
     (if \<not> skipInject
      then bind (injectData g Instructions instructionsData)
             (\<lambda>u. injectData g Memory memoryData)
      else return ())"

text \<open>
  \<open>generate\<close>. The two checks come first; \<open>generate_checked\<close> is the rest of the body,
  from the two calls of \<open>#generateSortedOutput\<close> on.
\<close>

definition is_object :: "jsval \<Rightarrow> bool" where
  "is_object v \<longleftrightarrow> \<not> (typeof v \<noteq> ''object'' \<or> v = JNull)"

definition generate_checked :: "generator \<Rightarrow> jsval \<Rightarrow> jsval \<Rightarrow> bool \<Rightarrow> bool \<Rightarrow> generated io" where
  "generate_checked g instructions profiles returnOnly skipInject =
     (case generateSortedOutput (config g) instructions ''instructions'' of
        Inl e \<Rightarrow> throw e
      | Inr instructionsData \<Rightarrow>
          (case generateSortedOutput (config g) profiles ''profiles'' of
             Inl e \<Rightarrow> throw e
           | Inr memoryData \<Rightarrow>
               (if container g \<and> \<not> isClaudeContainer g then
                  bind (clearPayloadData g Instructions) (\<lambda>u.
                  bind (clearPayloadData g Memory) (\<lambda>u.
                  bind (zip_plugins g (concat (map snd (plugins (config g)))) []) (\<lambda>zips.
                  bind (writeJsonFile g ''instructions.json'' instructionsData) (\<lambda>p1.
                  bind (writeJsonFile g ''memory.json'' memoryData) (\<lambda>p2.
                  bind (inject_both g skipInject instructionsData memoryData) (\<lambda>u.
                  generateOutput g (Some (sort (zips @ [p1, p2]))) returnOnly))))))
                else
                  bind (inject_both g skipInject instructionsData memoryData) (\<lambda>u.
                  generateOutput g None returnOnly))))"

definition generate :: "generator \<Rightarrow> jsval \<Rightarrow> jsval \<Rightarrow> bool \<Rightarrow> bool \<Rightarrow> generated io" where
  "generate g instructions profiles returnOnly skipInject =
     (if typeof instructions \<noteq> ''object'' \<or> instructions = JNull
      then throw INVALID_INSTRUCTIONS
      else if typeof profiles \<noteq> ''object'' \<or> profiles = JNull
      then throw INVALID_PROFILES
      else generate_checked g instructions profiles returnOnly skipInject)"


section \<open>Vocabulary of the properties\<close>

text \<open>
  The inheritance graph as a relation, the relative position of two keys in the visit
  order, and what holds of the keys that one call of \<open>visit\<close> appends to \<open>result\<close>.
\<close>

definition parent_rel :: "jsval \<Rightarrow> string list \<Rightarrow> (string \<times> string) set" where
  "parent_rel data keys = {(k, p). p \<in> set (present_parents data keys k)}"

definition earlier :: "'a \<Rightarrow> 'a \<Rightarrow> 'a list \<Rightarrow> bool" where
  "earlier a b xs \<longleftrightarrow> (\<exists>l1 l2 l3. xs = l1 @ a # l2 @ b # l3)"

definition post_ok :: "jsval \<Rightarrow> string list \<Rightarrow> string set \<Rightarrow> string list \<Rightarrow> bool" where
  "post_ok data keys V new \<longleftrightarrow>
     set new \<inter> V = {} \<and> distinct new \<and>
     (\<forall>n \<in> set new. \<forall>p \<in> set (present_parents data keys n). p \<in> V \<or> earlier p n new)"

text \<open>
  A path that \<open>#fetchEntries\<close> keeps, and what every entry of a listing satisfies.
\<close>

definition has_content :: "reflection \<Rightarrow> string \<Rightarrow> bool" where
  "has_content r file =
     (case fetchReflection r (drop (length (path r) + 1) file) of
        Inr (Some content) \<Rightarrow> content \<noteq> []
      | _ \<Rightarrow> False)"

definition entry_ok :: "reflection \<Rightarrow> string \<Rightarrow> bool" where
  "entry_ok r e \<longleftrightarrow> prefix (path r @ ''/'') e \<and> endsWith e (extension r)"

text \<open>
  The block that an injection leaves between the markers when the payload has no dollar
  sign, and the characters that end a reference of the replacement string.
\<close>

definition fenced :: "string \<Rightarrow> string" where
  "fenced json =
     [CHR 0x0A] @ fence @ ''json'' @ [CHR 0x0A] @ json @ [CHR 0x0A] @ fence @ [CHR 0x0A]"

definition ordinary :: "char \<Rightarrow> bool" where
  "ordinary c \<longleftrightarrow> c \<notin> set ''$&<'' \<and> c \<noteq> CHR 0x60 \<and> c \<noteq> CHR 0x27 \<and> \<not> is_digit c"

text \<open>
  The exceptions that a step can throw, and those of the steps after the two checks of
  \<open>generate\<close>.
\<close>

definition raises_only :: "error set \<Rightarrow> 'a io \<Rightarrow> bool" where
  "raises_only S step \<longleftrightarrow> (\<forall>w e w'. step w = (Inl e, w') \<longrightarrow> e \<in> S)"

definition later_errors :: "error set" where
  "later_errors = {TypeError, SystemError, ZIP_CREATE_ERROR}"

text \<open>Unit mappings used as concrete inputs.\<close>

definition chain_units :: jsval where
  "chain_units =
     JObj [(''derived'', JObj [(''inherits'', JArr [JStr ''base''])]), (''base'', JObj [])]"

definition numbered_units :: jsval where
  "numbered_units =
     JObj [(''1'', JObj []), (''2'', JObj [(''inherits'', JArr [JStr ''1''])])]"

definition tangled_units :: jsval where
  "tangled_units =
     JObj [(''loop'', JObj [(''inherits'', JArr [JStr ''loop''])]),
           (''ping'', JObj [(''inherits'', JArr [JStr ''pong''])]),
           (''pong'', JObj [(''inherits'', JArr [JStr ''ping''])]),
           (''top'', JObj [(''inherits'', JArr [JStr ''left'', JStr ''right''])]),
           (''left'', JObj [(''inherits'', JArr [JStr ''root''])]),
           (''right'', JObj [(''inherits'', JArr [JStr ''root''])]),
           (''root'', JNull)]"

text \<open>
  A repository with one directory that holds a dated file without content and a file
  of notes.
\<close>

definition diary :: reflection where
  "diary =
     \<lparr>path = ''diary'', extension = ''.md'',
      contents = (\<lambda>p. if p = ''diary''
                       then DirData [\<lparr>item_type = ''file'', item_name = ''2024-01-01.md''\<rparr>,
                                     \<lparr>item_type = ''file'', item_name = ''notes.md''\<rparr>]
                       else DirNotFound),
      raw_contents = (\<lambda>p. if p = ''diary/notes.md'' then RawData ''# Notes''
                           else if p = ''diary/2024-01-01.md'' then RawData []
                           else RawNotFound)\<rparr>"

text \<open>
  A host document with the pair of memory markers, a payload that quotes the end
  marker, and a payload with a dollar sign and a digit.
\<close>

definition host_document :: string where
  "host_document = ''# Skill <!-- framework-memory-start --><!-- framework-memory-end --> end''"

definition marker_payload :: string where
  \<open>marker_payload = ''{"profiles":{"A":"<!-- framework-memory-end -->"},"version":"1"}''\<close>

definition dollar_payload :: string where
  \<open>dollar_payload = ''{"profiles":{"A":"cost $2"},"version":"1"}''\<close>

text \<open>
  A generator for the local target with one plugin that holds the methodology skill, and
  a file system with the skill's host document. Its segments are absolute or plain
  names, which \<open>path.join\<close> and \<open>path.resolve\<close> only put together with the separator.
\<close>

fun slash_join :: "string list \<Rightarrow> string" where
  "slash_join [] = ''.''"
| "slash_join [a] = a"
| "slash_join (a # b # rest) = a @ ''/'' @ slash_join (b # rest)"

definition example_settings :: settings where
  "example_settings =
     \<lparr>plugins = [(''framework'',
                  [\<lparr>plugin_name = ''fw'', plugin_version = ''1.0'',
                    skills = Some [(''methodology'', ''method'')]\<rparr>])],
      skill_local = ''skills'', skill_container = ''/mnt/skills'',
      package_output = ''/out'', package_excludes = [], profile = ''DEVELOPER''\<rparr>"

definition example_generator :: generator where
  "example_generator =
     \<lparr>config = example_settings, container = False, profileName = ''DEVELOPER'',
      isClaudeContainer = False, homedir = ''/home'',
      path_join = slash_join, path_resolve = slash_join,
      stringify = (\<lambda>data. wrapper_key data), render = (\<lambda>out. out_profile out),
      tar = (\<lambda>w cwd name excludes. None), timestamp = ''now''\<rparr>"

definition example_world :: world where
  "example_world =
     \<lparr>files = [''/home/skills/fw/1.0/skills/method/SKILL.md'' \<mapsto>
                ''<!-- framework-memory-start --><!-- framework-memory-end -->''],
      directories = {''/home/skills/fw/1.0/skills/method''},
      stdout = []\<rparr>"


section \<open>Properties of the inheritance sorter\<close>

subsection \<open>Shape of the traversal\<close>

lemma includes_key_Some: "includes_key keys v = Some p \<Longrightarrow> p \<in> set keys"
  by (cases v) (auto split: if_splits)

lemma present_parents_keys: "set (present_parents data keys k) \<subseteq> set keys"
  by (auto simp: present_parents_def List.map_filter_def split: option.splits
      dest: includes_key_Some)

lemma dfs_shape:
  "\<exists>new. visit data keys k s = (fst s \<union> set new, snd s @ new) \<and> set new \<inter> fst s = {}
         \<and> distinct new \<and> k \<in> fst s \<union> set new \<and> set new \<subseteq> insert k (set keys)"
  "\<exists>new. for_each_visit data keys ps s = (fst s \<union> set new, snd s @ new) \<and> set new \<inter> fst s = {}
         \<and> distinct new \<and> set ps \<subseteq> fst s \<union> set new \<and> set new \<subseteq> set ps \<union> set keys"
proof (induction data keys k s and data keys ps s rule: visit_for_each_visit.induct)
  case (1 data keys k visited result)
  show ?case
  proof (cases "k \<in> visited")
    case True
    then have "visit data keys k (visited, result)
                 = (fst (visited, result) \<union> set [], snd (visited, result) @ [])"
      by simp
    then show ?thesis using True by fastforce
  next
    case False
    from 1 [OF False] obtain new where
      eq: "for_each_visit data keys (present_parents data keys k) (insert k visited, result)
             = (insert k visited \<union> set new, result @ new)"
      and dj: "set new \<inter> insert k visited = {}" and di: "distinct new"
      and sub: "set new \<subseteq> set (present_parents data keys k) \<union> set keys"
      by auto
    have "visit data keys k (visited, result)
            = (fst (visited, result) \<union> set (new @ [k]), snd (visited, result) @ (new @ [k]))"
      using False eq by auto
    moreover have "set (new @ [k]) \<inter> fst (visited, result) = {}" using dj False by auto
    moreover have "distinct (new @ [k])" using dj di by auto
    moreover have "set (new @ [k]) \<subseteq> insert k (set keys)"
      using sub present_parents_keys [of data keys k] by auto
    moreover have "k \<in> fst (visited, result) \<union> set (new @ [k])" by simp
    ultimately show ?thesis by blast
  qed
next
  case (2 data keys s)
  have "for_each_visit data keys [] s = (fst s \<union> set [], snd s @ [])" by simp
  then show ?case by fastforce
next
  case (3 data keys p ps s)
  from 3(1) obtain n1 where
    v: "visit data keys p s = (fst s \<union> set n1, snd s @ n1)"
    and a1: "set n1 \<inter> fst s = {}" "distinct n1" "p \<in> fst s \<union> set n1" "set n1 \<subseteq> insert p (set keys)"
    by auto
  from 3(2) v obtain n2 where
    f: "for_each_visit data keys ps (fst s \<union> set n1, snd s @ n1)
          = (fst s \<union> set n1 \<union> set n2, (snd s @ n1) @ n2)"
    and a2: "set n2 \<inter> (fst s \<union> set n1) = {}" "distinct n2"
      "set ps \<subseteq> fst s \<union> set n1 \<union> set n2" "set n2 \<subseteq> set ps \<union> set keys"
    by auto
  have "for_each_visit data keys (p # ps) s = (fst s \<union> set (n1 @ n2), snd s @ (n1 @ n2))"
    using v f by (simp add: Un_assoc)
  moreover have "set (n1 @ n2) \<inter> fst s = {}" using a1 a2 by auto
  moreover have "distinct (n1 @ n2)" using a1 a2 by auto
  moreover have "set (p # ps) \<subseteq> fst s \<union> set (n1 @ n2)" using a1 a2 by auto
  moreover have "set (n1 @ n2) \<subseteq> set (p # ps) \<union> set keys" using a1 a2 by auto
  ultimately show ?case by blast
qed

lemma visit_order_keys:
  "distinct (visit_order data)" "set (visit_order data) = set (object_keys data)"
proof -
  obtain new where
    "for_each_visit data (object_keys data) (object_keys data) ({}, []) = (set new, new)"
    "distinct new" "set (object_keys data) \<subseteq> set new" "set new \<subseteq> set (object_keys data)"
    using dfs_shape(2) [of data "object_keys data" "object_keys data" "({}, [])"] by auto
  then show "distinct (visit_order data)" "set (visit_order data) = set (object_keys data)"
    by (auto simp: visit_order_def Let_def)
qed

lemma set_property_fresh: "fst kv \<notin> fst ` set es \<Longrightarrow> set_property es kv = es @ [kv]"
  by (induction es) auto

lemma foldl_set_property:
  "distinct (map fst (acc @ es)) \<Longrightarrow> foldl set_property acc es = acc @ es"
proof (induction es arbitrary: acc)
  case Nil
  then show ?case by simp
next
  case (Cons e es)
  then have "set_property acc e = acc @ [e]" by (intro set_property_fresh) auto
  moreover have "distinct (map fst ((acc @ [e]) @ es))" using Cons.prems by simp
  ultimately show ?case using Cons.IH [of "acc @ [e]"] by simp
qed

lemma from_entries_distinct: "distinct (map fst es) \<Longrightarrow> from_entries es = property_order es"
  using foldl_set_property [of "[]" es] by (simp add: from_entries_def)

lemma set_property_order: "set (property_order es) = set es"
  by (auto simp: property_order_def)

lemma distinct_property_order:
  assumes "distinct (map fst es)"
  shows "distinct (map fst (property_order es))"
proof -
  from assms have d: "distinct es" and i: "inj_on fst (set es)"
    by (simp_all add: distinct_map)
  have "distinct (property_order es)"
    using d by (auto simp: property_order_def)
  then show ?thesis using i by (simp add: distinct_map set_property_order)
qed

lemma property_order_plain:
  "\<forall>e \<in> set es. \<not> is_array_index (fst e) \<Longrightarrow> property_order es = es"
  by (simp add: property_order_def)

lemma sorted_units_keys:
  "map fst (sorted_units data)
     = map fst (property_order (map (\<lambda>k. (k, get_prop data k)) (rev (visit_order data))))"
proof -
  have "distinct (map fst (map (\<lambda>k. (k, get_prop data k)) (rev (visit_order data))))"
    using visit_order_keys(1) [of data] by (simp add: comp_def)
  then show ?thesis by (simp add: sorted_units_def from_entries_distinct)
qed

lemma sorted_units_plain:
  assumes "\<forall>k \<in> set (object_keys data). \<not> is_array_index k"
  shows "map fst (sorted_units data) = rev (visit_order data)"
proof -
  have "\<forall>e \<in> set (map (\<lambda>k. (k, get_prop data k)) (rev (visit_order data))). \<not> is_array_index (fst e)"
    using assms visit_order_keys(2) [of data] by auto
  then show ?thesis
    by (simp add: sorted_units_keys property_order_plain comp_def)
qed

lemma sorted_units_one_each:
  "distinct (map fst (sorted_units data))"
  "set (map fst (sorted_units data)) = set (object_keys data)"
  "(k, v) \<in> set (sorted_units data) \<Longrightarrow> v = get_prop data k"
proof -
  let ?es = "map (\<lambda>k. (k, get_prop data k)) (rev (visit_order data))"
  have d: "distinct (map fst ?es)"
    using visit_order_keys(1) [of data] by (simp add: comp_def)
  then have eq: "sorted_units data = property_order ?es"
    by (simp add: sorted_units_def from_entries_distinct)
  show "distinct (map fst (sorted_units data))"
    using d by (simp only: eq distinct_property_order)
  have "set (map fst (sorted_units data)) = fst ` set ?es"
    by (simp add: eq set_property_order)
  also have "\<dots> = set (object_keys data)"
    using visit_order_keys(2) [of data] by force
  finally show "set (map fst (sorted_units data)) = set (object_keys data)" .
  assume "(k, v) \<in> set (sorted_units data)"
  then have "(k, v) \<in> set ?es" by (simp add: eq set_property_order)
  then show "v = get_prop data k" by auto
qed

lemma earlier_appendI1: "earlier a b xs \<Longrightarrow> earlier a b (xs @ ys)"
  unfolding earlier_def by fastforce

lemma earlier_appendI2: "earlier a b ys \<Longrightarrow> earlier a b (xs @ ys)"
  unfolding earlier_def by (metis append.assoc)

lemma earlier_splitI: "a \<in> set xs \<Longrightarrow> b \<in> set ys \<Longrightarrow> earlier a b (xs @ ys)"
proof -
  assume "a \<in> set xs" "b \<in> set ys"
  then obtain l1 l2 m1 m2 where "xs = l1 @ a # l2" "ys = m1 @ b # m2"
    by (meson split_list)
  then have "xs @ ys = l1 @ a # (l2 @ m1) @ b # m2" by simp
  then show ?thesis unfolding earlier_def by blast
qed

lemma dfs_postorder:
  assumes ac: "acyclic (parent_rel data keys)"
  shows "\<exists>new. visit data keys k s = (fst s \<union> set new, snd s @ new) \<and> post_ok data keys (fst s) new
           \<and> k \<in> fst s \<union> set new \<and> (\<forall>n \<in> set new. (k, n) \<in> (parent_rel data keys)\<^sup>*)"
    and "\<exists>new. for_each_visit data keys ps s = (fst s \<union> set new, snd s @ new) \<and> post_ok data keys (fst s) new
           \<and> set ps \<subseteq> fst s \<union> set new \<and> (\<forall>n \<in> set new. \<exists>q \<in> set ps. (q, n) \<in> (parent_rel data keys)\<^sup>*)"
  using ac
proof (induction data keys k s and data keys ps s rule: visit_for_each_visit.induct)
  case (1 data keys k visited result)
  let ?E = "parent_rel data keys"
  show ?case
  proof (cases "k \<in> visited")
    case True
    then have "visit data keys k (visited, result) = (fst (visited, result) \<union> set [], snd (visited, result) @ [])"
      by simp
    moreover have "post_ok data keys visited []" by (simp add: post_ok_def)
    ultimately show ?thesis using True by fastforce
  next
    case False
    from 1(1) [OF False 1(2)] obtain new where
      eq: "for_each_visit data keys (present_parents data keys k) (insert k visited, result)
             = (insert k visited \<union> set new, result @ new)"
      and ok: "post_ok data keys (insert k visited) new"
      and sub: "set (present_parents data keys k) \<subseteq> insert k visited \<union> set new"
      and reach: "\<forall>n \<in> set new. \<exists>q \<in> set (present_parents data keys k). (q, n) \<in> ?E\<^sup>*"
      by auto
    have kreach: "(k, n) \<in> ?E\<^sup>+" if "n \<in> set new" for n
    proof -
      from reach that obtain q where "q \<in> set (present_parents data keys k)" "(q, n) \<in> ?E\<^sup>*"
        by blast
      moreover then have "(k, q) \<in> ?E" by (simp add: parent_rel_def)
      ultimately show ?thesis by (meson rtrancl_into_trancl2)
    qed
    have noself: "k \<notin> set (present_parents data keys k)"
    proof
      assume "k \<in> set (present_parents data keys k)"
      then have "(k, k) \<in> ?E" by (simp add: parent_rel_def)
      with 1(2) show False by (meson acyclic_def trancl.r_into_trancl)
    qed
    have noback: "k \<notin> set (present_parents data keys n)" if "n \<in> set new" for n
    proof
      assume "k \<in> set (present_parents data keys n)"
      then have "(n, k) \<in> ?E" by (simp add: parent_rel_def)
      with kreach [OF that] have "(k, k) \<in> ?E\<^sup>+" by (meson trancl_into_trancl)
      with 1(2) show False by (simp add: acyclic_def)
    qed
    have knew: "k \<notin> set new" using ok by (auto simp: post_ok_def)
    have v: "visit data keys k (visited, result)
               = (fst (visited, result) \<union> set (new @ [k]), snd (visited, result) @ (new @ [k]))"
      using False eq by auto
    have "post_ok data keys visited (new @ [k])"
      unfolding post_ok_def
    proof (intro conjI ballI)
      show "set (new @ [k]) \<inter> visited = {}" using ok False by (auto simp: post_ok_def)
      show "distinct (new @ [k])" using ok knew by (auto simp: post_ok_def)
    next
      fix n p assume n: "n \<in> set (new @ [k])" and p: "p \<in> set (present_parents data keys n)"
      show "p \<in> visited \<or> earlier p n (new @ [k])"
      proof (cases "n = k")
        case True
        with p noself sub have "p \<in> visited \<or> p \<in> set new" by auto
        then show ?thesis using True earlier_splitI [of p new k "[k]"] by auto
      next
        case False
        with n have nn: "n \<in> set new" by simp
        with ok p have "p \<in> insert k visited \<or> earlier p n new" by (auto simp: post_ok_def)
        moreover have "p \<noteq> k" using noback [OF nn] p by auto
        ultimately show ?thesis using earlier_appendI1 by fastforce
      qed
    qed
    moreover have "\<forall>n \<in> set (new @ [k]). (k, n) \<in> ?E\<^sup>*"
      using kreach by (auto intro: trancl_into_rtrancl)
    moreover have "k \<in> fst (visited, result) \<union> set (new @ [k])" by simp
    ultimately show ?thesis using v by (metis fst_conv)
  qed
next
  case (2 data keys s)
  have "for_each_visit data keys [] s = (fst s \<union> set [], snd s @ [])" by simp
  moreover have "post_ok data keys (fst s) []" by (simp add: post_ok_def)
  ultimately show ?case by fastforce
next
  case (3 data keys p ps s)
  let ?E = "parent_rel data keys"
  from 3(1) [OF 3(3)] obtain n1 where
    v: "visit data keys p s = (fst s \<union> set n1, snd s @ n1)"
    and ok1: "post_ok data keys (fst s) n1"
    and p1: "p \<in> fst s \<union> set n1"
    and r1: "\<forall>n \<in> set n1. (p, n) \<in> ?E\<^sup>*"
    by auto
  from 3(2) [OF 3(3)] v obtain n2 where
    f: "for_each_visit data keys ps (fst s \<union> set n1, snd s @ n1)
          = (fst s \<union> set n1 \<union> set n2, (snd s @ n1) @ n2)"
    and ok2: "post_ok data keys (fst s \<union> set n1) n2"
    and p2: "set ps \<subseteq> fst s \<union> set n1 \<union> set n2"
    and r2: "\<forall>n \<in> set n2. \<exists>q \<in> set ps. (q, n) \<in> ?E\<^sup>*"
    by auto
  have e: "for_each_visit data keys (p # ps) s = (fst s \<union> set (n1 @ n2), snd s @ (n1 @ n2))"
    using v f by (simp add: Un_assoc)
  have "post_ok data keys (fst s) (n1 @ n2)"
    unfolding post_ok_def
  proof (intro conjI ballI)
    show "set (n1 @ n2) \<inter> fst s = {}" using ok1 ok2 by (auto simp: post_ok_def)
    show "distinct (n1 @ n2)" using ok1 ok2 by (auto simp: post_ok_def)
  next
    fix n q assume n: "n \<in> set (n1 @ n2)" and q: "q \<in> set (present_parents data keys n)"
    show "q \<in> fst s \<or> earlier q n (n1 @ n2)"
    proof (cases "n \<in> set n1")
      case True
      with ok1 q show ?thesis by (auto simp: post_ok_def intro: earlier_appendI1)
    next
      case False
      with n have nn: "n \<in> set n2" by simp
      with ok2 q have "q \<in> fst s \<or> q \<in> set n1 \<or> earlier q n n2" by (auto simp: post_ok_def)
      then show ?thesis using nn by (auto intro: earlier_appendI2 earlier_splitI)
    qed
  qed
  moreover have "set (p # ps) \<subseteq> fst s \<union> set (n1 @ n2)" using p1 p2 by auto
  moreover have "\<forall>n \<in> set (n1 @ n2). \<exists>q \<in> set (p # ps). (q, n) \<in> ?E\<^sup>*"
    using r1 r2 by auto
  ultimately show ?case using e by blast
qed


lemma earlier_precedes_rev:
  assumes "distinct xs" and "earlier p n xs"
  shows "precedes (rev xs) n p"
proof -
  from assms(2) obtain l1 l2 l3 where xs: "xs = l1 @ p # l2 @ n # l3"
    unfolding earlier_def by blast
  then have r: "rev xs = rev l3 @ n # rev l2 @ p # rev l1" by simp
  have n3: "n \<notin> set l3" and p3: "p \<notin> set l3" and p2: "p \<notin> set l2" and pn: "p \<noteq> n"
    using assms(1) xs by auto
  have "takeWhile (\<lambda>x. x \<noteq> n) (rev xs) = rev l3"
    unfolding r using n3 by (subst takeWhile_append2) auto
  moreover have "takeWhile (\<lambda>x. x \<noteq> p) (rev xs) = rev l3 @ n # rev l2"
  proof -
    have "takeWhile (\<lambda>x. x \<noteq> p) ((rev l3 @ n # rev l2) @ p # rev l1) = rev l3 @ n # rev l2"
      using p3 p2 pn by (subst takeWhile_append2) auto
    then show ?thesis by (simp add: r)
  qed
  ultimately show ?thesis
    by (simp add: precedes_def position_def r)
qed

lemma precedes_trans: "precedes xs a b \<Longrightarrow> precedes xs b c \<Longrightarrow> precedes xs a c"
  by (auto simp: precedes_def)

lemma present_parents_absent:
  "k \<notin> set (object_keys data) \<Longrightarrow> present_parents data keys k = []"
proof -
  assume "k \<notin> set (object_keys data)"
  then have "map_of (own_entries data) k = None"
    by (simp add: object_keys_def map_of_eq_None_iff)
  then show ?thesis
    by (simp add: present_parents_def get_prop_def inherits_of_def)
qed

lemma parent_rel_edges: "parent_rel data (object_keys data) = set (inherits_edges data)"
  using present_parents_absent [of _ data "object_keys data"]
  by (fastforce simp: parent_rel_def inherits_edges_def Let_def)

lemma child_precedes_parent:
  assumes ac: "acyclic (set (inherits_edges data))"
    and plain: "\<forall>k \<in> set (object_keys data). \<not> is_array_index k"
    and par: "p \<in> set (present_parents data (object_keys data) u)"
  shows "precedes (map fst (sorted_units data)) u p"
proof -
  let ?keys = "object_keys data"
  from ac have "acyclic (parent_rel data ?keys)" by (simp add: parent_rel_edges)
  from dfs_postorder(2) [OF this, of ?keys "({}, [])"] obtain new where
    eq: "for_each_visit data ?keys ?keys ({}, []) = (set new, new)"
    and ok: "post_ok data ?keys {} new" and all: "set ?keys \<subseteq> set new"
    by auto
  have vo: "visit_order data = new" using eq by (simp add: visit_order_def)
  have "u \<in> set ?keys"
    using par present_parents_absent [of u data ?keys] by fastforce
  with all have "u \<in> set new" by blast
  with ok par have "earlier p u new" by (auto simp: post_ok_def)
  moreover have "distinct new" using ok by (simp add: post_ok_def)
  ultimately have "precedes (rev new) u p" by (rule earlier_precedes_rev [rotated])
  then show ?thesis using sorted_units_plain [OF plain] vo by simp
qed

lemma descendant_precedes_ancestor:
  assumes ac: "acyclic (set (inherits_edges data))"
    and plain: "\<forall>k \<in> set (object_keys data). \<not> is_array_index k"
    and anc: "(u, a) \<in> (set (inherits_edges data))\<^sup>+"
  shows "precedes (map fst (sorted_units data)) u a"
  using anc
proof (induction rule: trancl_induct)
  case (base y)
  then have "y \<in> set (present_parents data (object_keys data) u)"
    by (simp add: parent_rel_edges [symmetric] parent_rel_def)
  then show ?case by (rule child_precedes_parent [OF ac plain])
next
  case (step y z)
  then have "z \<in> set (present_parents data (object_keys data) y)"
    by (simp add: parent_rel_edges [symmetric] parent_rel_def)
  then have "precedes (map fst (sorted_units data)) y z"
    by (rule child_precedes_parent [OF ac plain])
  with step.IH show ?case by (rule precedes_trans)
qed


subsection \<open>Concrete runs\<close>

lemma acyclic_no_edges: "acyclic {}"
  by (simp add: acyclic_def)

lemma chain_keys: "object_keys chain_units = [''derived'', ''base'']"
  by (simp add: chain_units_def object_keys_def own_entries_def)

lemma chain_parents:
  "present_parents chain_units [''derived'', ''base''] ''derived'' = [''base'']"
  "present_parents chain_units [''derived'', ''base''] ''base'' = []"
  by (simp_all add: chain_units_def present_parents_def get_prop_def own_entries_def
      inherits_of_def List.map_filter_def)

lemma chain_plain: "\<not> is_array_index ''derived''" "\<not> is_array_index ''base''"
  by (simp_all add: is_array_index_def is_digit_def)

lemma chain_edges: "inherits_edges chain_units = [(''derived'', ''base'')]"
  by (simp add: inherits_edges_def chain_keys chain_parents)

lemma chain_sorted: "map fst (sorted_units chain_units) = [''derived'', ''base'']"
proof -
  have "visit_order chain_units = [''base'', ''derived'']"
    by (simp add: visit_order_def chain_keys chain_parents)
  then show ?thesis
    by (simp add: sorted_units_def from_entries_def property_order_def chain_plain)
qed

lemma numbered_keys: "object_keys numbered_units = [''1'', ''2'']"
  by (simp add: numbered_units_def object_keys_def own_entries_def)

lemma numbered_parents:
  "present_parents numbered_units [''1'', ''2''] ''1'' = []"
  "present_parents numbered_units [''1'', ''2''] ''2'' = [''1'']"
  by (simp_all add: numbered_units_def present_parents_def get_prop_def own_entries_def
      inherits_of_def List.map_filter_def)

lemma numbered_indices:
  "is_array_index ''1''" "is_array_index ''2''" "dec_val ''1'' = 1" "dec_val ''2'' = 2"
  by (simp_all add: is_array_index_def is_digit_def dec_val_def digit_val_def)

lemma numbered_edges: "inherits_edges numbered_units = [(''2'', ''1'')]"
  by (simp add: inherits_edges_def numbered_keys numbered_parents)

lemma numbered_sorted: "map fst (sorted_units numbered_units) = [''1'', ''2'']"
proof -
  have "visit_order numbered_units = [''1'', ''2'']"
    by (simp add: visit_order_def numbered_keys numbered_parents)
  then show ?thesis
    by (simp add: sorted_units_def from_entries_def property_order_def numbered_indices)
qed

lemma tangled_keys:
  "object_keys tangled_units = [''loop'', ''ping'', ''pong'', ''top'', ''left'', ''right'', ''root'']"
  by (simp add: tangled_units_def object_keys_def own_entries_def)


subsection \<open>Units and their parents (C1)\<close>

text \<open>
  C1. For an acyclic inheritance graph the mapping returned by \<open>#generateSortedOutput\<close>
  is to place every unit before each parent that its \<open>inherits\<close> list names and that is
  a key of the input, as the comment of the function says (the active profile first, then
  its parents). On the units \<open>1\<close> and \<open>2\<close>, where \<open>2\<close> inherits from \<open>1\<close>, the run does
  not: the reversed visit order hands \<open>2\<close> and then its parent \<open>1\<close> to
  \<open>Object.fromEntries\<close>, and the object that this builds enumerates the array-index name
  \<open>1\<close> first, so that the parent comes before the unit in the returned mapping.
\<close>

theorem array_index_names_parent_first:
  "acyclic (set (inherits_edges numbered_units))
   \<and> ''2'' \<in> set (object_keys numbered_units)
   \<and> ''1'' \<in> set (present_parents numbered_units (object_keys numbered_units) ''2'')
   \<and> rev (visit_order numbered_units) = [''2'', ''1'']
   \<and> map fst (sorted_units numbered_units) = [''1'', ''2'']
   \<and> \<not> precedes (map fst (sorted_units numbered_units)) ''2'' ''1''"
proof -
  have "visit_order numbered_units = [''1'', ''2'']"
    by (simp add: visit_order_def numbered_keys numbered_parents)
  then show ?thesis
    by (simp add: numbered_edges numbered_keys numbered_parents numbered_sorted
        precedes_def position_def acyclic_no_edges)
qed


subsection \<open>Direction of the result (C2)\<close>

text \<open>
  C2. After the final reversal the most-derived units come first and the ancestors last:
  for an acyclic inheritance graph whose unit names are not array indices, every unit
  occurs before each of its direct and transitive ancestors, and no ancestor occurs
  before a unit that descends from it.
\<close>

theorem descendants_first_ancestors_last:
  assumes "acyclic (set (inherits_edges data))"
    and "\<forall>k \<in> set (object_keys data). \<not> is_array_index k"
    and "(u, a) \<in> (set (inherits_edges data))\<^sup>+"
  shows "precedes (map fst (sorted_units data)) u a
         \<and> \<not> precedes (map fst (sorted_units data)) a u"
proof -
  have "precedes (map fst (sorted_units data)) u a"
    using assms by (rule descendant_precedes_ancestor)
  then show ?thesis by (auto simp: precedes_def)
qed

theorem descendants_first_ancestors_last_witness:
  "acyclic (set (inherits_edges chain_units))
   \<and> object_keys chain_units = [''derived'', ''base'']
   \<and> \<not> is_array_index ''derived'' \<and> \<not> is_array_index ''base''
   \<and> (''derived'', ''base'') \<in> (set (inherits_edges chain_units))\<^sup>+
   \<and> precedes (map fst (sorted_units chain_units)) ''derived'' ''base''
   \<and> \<not> precedes (map fst (sorted_units chain_units)) ''base'' ''derived''"
proof -
  have a: "acyclic (set (inherits_edges chain_units))"
    by (simp add: chain_edges acyclic_no_edges)
  have b: "\<forall>k \<in> set (object_keys chain_units). \<not> is_array_index k"
    by (simp add: chain_keys chain_plain)
  have c: "(''derived'', ''base'') \<in> (set (inherits_edges chain_units))\<^sup>+"
    by (auto simp: chain_edges)
  show ?thesis
    using a c descendants_first_ancestors_last [OF a b c] by (simp add: chain_keys chain_plain)
qed

text \<open>
  The claim as written, ancestors first and most-derived units last, fails on a unit
  with one parent: the returned mapping starts with the derived unit.
\<close>

theorem ancestors_first_counterexample:
  "''base'' \<in> set (present_parents chain_units (object_keys chain_units) ''derived'')
   \<and> map fst (sorted_units chain_units) = [''derived'', ''base'']
   \<and> \<not> precedes (map fst (sorted_units chain_units)) ''base'' ''derived''"
  by (simp add: chain_keys chain_parents chain_sorted precedes_def position_def)


subsection \<open>One entry per unit (C3)\<close>

text \<open>
  C3. \<open>visit\<close> and \<open>for_each_visit\<close> are total functions (their termination is proved
  with their definition, for every input, cyclic or not), so the sorter returns for every
  unit mapping. Its result has no key twice, has exactly the keys of the input, each with
  the value the input gives it, and as many entries as the input has units; visiting a
  key that is already in \<open>visited\<close> changes nothing.
\<close>

theorem sorter_one_entry_per_unit:
  "distinct (map fst (sorted_units data))
   \<and> set (map fst (sorted_units data)) = set (object_keys data)
   \<and> (\<forall>(k, v) \<in> set (sorted_units data). v = get_prop data k)
   \<and> (distinct (object_keys data) \<longrightarrow> length (sorted_units data) = length (object_keys data))
   \<and> (k \<in> visited \<longrightarrow> visit data keys k (visited, result) = (visited, result))"
proof -
  have "length (sorted_units data) = length (object_keys data)" if "distinct (object_keys data)"
  proof -
    have "length (map fst (sorted_units data)) = card (set (map fst (sorted_units data)))"
      using sorted_units_one_each(1) [of data] by (simp only: distinct_card)
    also have "\<dots> = card (set (object_keys data))"
      by (simp only: sorted_units_one_each(2))
    also have "\<dots> = length (object_keys data)"
      using that by (simp only: distinct_card)
    finally show ?thesis by simp
  qed
  moreover have "\<forall>(k, v) \<in> set (sorted_units data). v = get_prop data k"
    using sorted_units_one_each(3) by blast
  ultimately show ?thesis
    using sorted_units_one_each(1,2) [of data] by simp
qed

theorem sorter_one_entry_per_unit_witness:
  "distinct (object_keys tangled_units)
   \<and> length (sorted_units tangled_units) = length (object_keys tangled_units)
   \<and> distinct (map fst (sorted_units tangled_units))
   \<and> set (map fst (sorted_units tangled_units))
       = {''loop'', ''ping'', ''pong'', ''top'', ''left'', ''right'', ''root''}
   \<and> ''loop'' \<in> {''loop''}
   \<and> visit tangled_units (object_keys tangled_units) ''loop'' ({''loop''}, []) = ({''loop''}, [])"
proof -
  have d: "distinct (object_keys tangled_units)"
    by (simp add: tangled_keys)
  have s: "set (object_keys tangled_units)
             = {''loop'', ''ping'', ''pong'', ''top'', ''left'', ''right'', ''root''}"
    by (simp add: tangled_keys)
  show ?thesis
    using d s
      sorter_one_entry_per_unit
        [where data = tangled_units and k = "''loop''" and visited = "{''loop''}"
           and keys = "object_keys tangled_units" and result = "[]"]
    by simp
qed


section \<open>Properties of the reflection reader\<close>

subsection \<open>Listings\<close>

lemma endsWith_iff: "endsWith s x \<longleftrightarrow> (\<exists>a. s = a @ x)"
proof
  assume "endsWith s x"
  then have "s = take (length s - length x) s @ x"
    by (metis append_take_drop_id endsWith_def)
  then show "\<exists>a. s = a @ x" by blast
next
  assume "\<exists>a. s = a @ x"
  then show "endsWith s x" by (auto simp: endsWith_def)
qed

lemma endsWith_last: "endsWith s x \<Longrightarrow> x \<noteq> [] \<Longrightarrow> s \<noteq> [] \<and> last s = last x"
  by (auto simp: endsWith_iff)

lemma insort_after_smaller:
  "\<forall>a \<in> set as. f a < f x \<Longrightarrow> insort_key f x (as @ bs) = as @ insort_key f x bs"
  by (induction as) auto

lemma sort_entries_partition:
  "sort_entries es = filter (\<lambda>p. \<not> isDigitFile p) es @ filter isDigitFile es"
proof (induction es)
  case Nil
  then show ?case by (simp add: sort_entries_def)
next
  case (Cons x xs)
  let ?f = "\<lambda>p. if isDigitFile p then 1 else 0 :: nat"
  let ?A = "filter (\<lambda>p. \<not> isDigitFile p) xs" and ?B = "filter isDigitFile xs"
  have s: "sort_entries (x # xs) = insort_key ?f x (?A @ ?B)"
    using Cons.IH by (simp add: sort_entries_def)
  show ?case
  proof (cases "isDigitFile x")
    case True
    then have "insort_key ?f x (?A @ ?B) = ?A @ insort_key ?f x ?B"
      by (intro insort_after_smaller) auto
    moreover have "insort_key ?f x ?B = x # ?B"
      using True by (intro insort_is_Cons) auto
    ultimately show ?thesis using True s by simp
  next
    case False
    then have "insort_key ?f x (?A @ ?B) = x # ?A @ ?B"
      by (intro insort_is_Cons) auto
    then show ?thesis using False s by simp
  qed
qed

lemma last_segment_file:
  "CHR ''/'' \<notin> set name \<Longrightarrow> last_segment (p @ ''/'' @ name) = name"
proof -
  assume a: "CHR ''/'' \<notin> set name"
  have "takeWhile (\<lambda>c. c \<noteq> CHR ''/'') (rev name @ CHR ''/'' # rev p) = rev name"
    using a by (subst takeWhile_append2) auto
  then show ?thesis by (simp add: last_segment_def)
qed

lemma list_entries_ok:
  "list_entries n r sub = Some (Inr es) \<Longrightarrow> \<forall>e \<in> set es. entry_ok r e"
  "list_items n r sub items entries = Some (Inr es) \<Longrightarrow> \<forall>e \<in> set entries. entry_ok r e
     \<Longrightarrow> \<forall>e \<in> set es. entry_ok r e"
proof (induction n r sub and n r sub items entries arbitrary: es and es
    rule: list_entries_list_items.induct)
  case (1 r subPath)
  then show ?case by simp
next
  case (2 n r subPath)
  show ?case
  proof (cases "fetchDirectory r subPath")
    case (Inl e)
    with "2.prems" show ?thesis by simp
  next
    case (Inr found)
    show ?thesis
    proof (cases found)
      case None
      have "entry_ok r (path r @ ''/'' @ subPath @ extension r)"
        by (simp add: entry_ok_def endsWith_iff)
      with "2.prems" Inr None show ?thesis
        by (auto split: if_splits sum.splits option.splits)
    next
      case (Some items)
      with "2.prems" Inr obtain entries where
        l: "list_items n r subPath items [] = Some (Inr entries)" and e: "es = sort_entries entries"
        by (auto split: option.splits sum.splits)
      from "2.IH" [OF Inr Some l] have "\<forall>e \<in> set entries. entry_ok r e" by simp
      then show ?thesis by (simp add: e sort_entries_def)
    qed
  qed
next
  case (3 n r subPath entries)
  then show ?case by simp
next
  case (4 n r subPath i items entries)
  let ?prefix = "if subPath \<noteq> [] then path r @ ''/'' @ subPath else path r"
  show ?case
  proof (cases "item_type i = ''dir''")
    case True
    let ?sub = "if subPath \<noteq> [] then subPath @ ''/'' @ item_name i else item_name i"
    from "4.prems"(1) True obtain nested where
      n: "list_entries n r ?sub = Some (Inr nested)"
      and l: "list_items n r subPath items (entries @ nested) = Some (Inr es)"
      by (auto split: option.splits sum.splits)
    from "4.IH"(1) [OF True n] have "\<forall>e \<in> set nested. entry_ok r e" .
    with "4.prems"(2) have "\<forall>e \<in> set (entries @ nested). entry_ok r e" by auto
    with "4.IH"(2) [OF True n refl l] show ?thesis .
  next
    case False
    show ?thesis
    proof (cases "item_type i = ''file'' \<and> endsWith (item_name i) (extension r)")
      case True
      then obtain a where a: "item_name i = a @ extension r" by (auto simp: endsWith_iff)
      have "entry_ok r (?prefix @ ''/'' @ item_name i)"
        unfolding entry_ok_def endsWith_iff a
        by (auto simp: prefix_def)
      with "4.prems"(2) have ok: "\<forall>e \<in> set (entries @ [?prefix @ ''/'' @ item_name i]). entry_ok r e"
        by auto
      from "4.prems"(1) False True
      have "list_items n r subPath items (entries @ [?prefix @ ''/'' @ item_name i]) = Some (Inr es)"
        by simp
      from "4.IH"(3) [OF False True this ok] show ?thesis .
    next
      case F2: False
      with "4.prems"(1) False have "list_items n r subPath items entries = Some (Inr es)" by auto
      from "4.IH"(4) [OF False F2 this "4.prems"(2)] show ?thesis .
    qed
  qed
qed


text \<open>A larger bound on the depth does not change a listing that was returned.\<close>

lemma list_entries_more_fuel:
  "list_entries n r sub = Some res \<Longrightarrow> list_entries (Suc n) r sub = Some res"
  "list_items n r sub items entries = Some res
   \<Longrightarrow> list_items (Suc n) r sub items entries = Some res"
proof (induction n r sub and n r sub items entries arbitrary: res and res
    rule: list_entries_list_items.induct)
  case (1 r subPath)
  then show ?case by simp
next
  case (2 n r subPath)
  show ?case
  proof (cases "fetchDirectory r subPath")
    case (Inl e)
    with "2.prems" show ?thesis by simp
  next
    case (Inr found)
    show ?thesis
    proof (cases found)
      case None
      with "2.prems" Inr show ?thesis by simp
    next
      case (Some items)
      with "2.prems" Inr obtain inner where
        i: "list_items n r subPath items [] = Some inner"
        by (auto split: option.splits)
      from "2.IH" [OF Inr Some i] have "list_items (Suc n) r subPath items [] = Some inner" .
      with "2.prems" Inr Some i show ?thesis
        by (simp del: list_items.simps)
    qed
  qed
next
  case (3 n r subPath entries)
  then show ?case by simp
next
  case (4 n r subPath i items entries)
  show ?case
  proof (cases "item_type i = ''dir''")
    case True
    let ?sub = "if subPath \<noteq> [] then subPath @ ''/'' @ item_name i else item_name i"
    from "4.prems" True obtain inner where
      n: "list_entries n r ?sub = Some inner"
      by (auto split: option.splits)
    from "4.IH"(1) [OF True n] have up: "list_entries (Suc n) r ?sub = Some inner" .
    show ?thesis
    proof (cases inner)
      case (Inl e)
      with "4.prems" True n up show ?thesis by (auto simp del: list_entries.simps)
    next
      case (Inr nested)
      with "4.prems" True n
      have "list_items n r subPath items (entries @ nested) = Some res"
        by (simp del: list_entries.simps)
      from "4.IH"(2) [OF True n Inr this] up Inr True show ?thesis
        by (simp del: list_entries.simps)
    qed
  next
    case False
    with "4.prems" "4.IH"(3,4) show ?thesis
      by (auto simp del: list_entries.simps split: if_splits)
  qed
qed

lemma list_entries_cases:
  assumes "list_entries n r sub = Some (Inr es)"
  shows "(\<exists>items entries. fetchDirectory r sub = Inr (Some items)
            \<and> list_items (n - 1) r sub items [] = Some (Inr entries) \<and> es = sort_entries entries)
         \<or> (fetchDirectory r sub = Inr None
            \<and> (es = [] \<or> es = [path r @ ''/'' @ sub @ extension r]))"
proof (cases n)
  case 0
  with assms show ?thesis by simp
next
  case (Suc m)
  with assms show ?thesis
    by (auto split: sum.splits option.splits if_splits)
qed

lemma partition_again:
  "filter (\<lambda>p. \<not> P p) (filter (\<lambda>p. \<not> P p) xs @ filter P xs) = filter (\<lambda>p. \<not> P p) xs"
  "filter P (filter (\<lambda>p. \<not> P p) xs @ filter P xs) = filter P xs"
  by (induction xs) auto

lemma diary_directory:
  "fetchDirectory diary []
     = Inr (Some [\<lparr>item_type = ''file'', item_name = ''2024-01-01.md''\<rparr>,
                  \<lparr>item_type = ''file'', item_name = ''notes.md''\<rparr>])"
  by (simp add: fetchDirectory_def diary_def)

lemma diary_digit_names:
  "isDigitFile ''diary/2024-01-01.md''" "\<not> isDigitFile ''diary/notes.md''"
  by (simp_all add: isDigitFile_def last_segment_def is_digit_def)

lemma diary_items:
  "list_items 0 diary []
     [\<lparr>item_type = ''file'', item_name = ''2024-01-01.md''\<rparr>,
      \<lparr>item_type = ''file'', item_name = ''notes.md''\<rparr>] []
   = Some (Inr [''diary/2024-01-01.md'', ''diary/notes.md''])"
  by (simp add: endsWith_def diary_def)

lemma diary_listing:
  "list_entries (Suc 0) diary [] = Some (Inr [''diary/notes.md'', ''diary/2024-01-01.md''])"
  by (simp add: diary_directory diary_items sort_entries_def diary_digit_names
      del: list_items.simps)


subsection \<open>Order of a listing (C5)\<close>

text \<open>
  C5. In the sequence that \<open>list\<close> returns, the entries whose file name does not start
  with a digit come before those whose file name does, and within each of the two
  segments the entries keep the order they had in the array before the sort (the sort is
  stable). A directory with the files \<open>2024-01-01.md\<close> and \<open>notes.md\<close> yields \<open>notes.md\<close>
  before \<open>2024-01-01.md\<close>.
\<close>

theorem list_digit_names_last_stable:
  assumes "list_entries n r subPath = Some (Inr es)"
  shows "es = filter (\<lambda>p. \<not> isDigitFile p) es @ filter isDigitFile es
         \<and> (\<forall>items entries.
               fetchDirectory r subPath = Inr (Some items)
               \<and> list_items (n - 1) r subPath items [] = Some (Inr entries)
               \<longrightarrow> es = filter (\<lambda>p. \<not> isDigitFile p) entries @ filter isDigitFile entries)
         \<and> (extension r = ''.md''
             \<and> fetchDirectory r subPath
                 = Inr (Some [\<lparr>item_type = ''file'', item_name = ''2024-01-01.md''\<rparr>,
                              \<lparr>item_type = ''file'', item_name = ''notes.md''\<rparr>])
             \<longrightarrow> es = [(if subPath \<noteq> [] then path r @ ''/'' @ subPath else path r) @ ''/notes.md'',
                       (if subPath \<noteq> [] then path r @ ''/'' @ subPath else path r) @ ''/2024-01-01.md''])"
proof (intro conjI allI impI)
  from list_entries_cases [OF assms]
  show "es = filter (\<lambda>p. \<not> isDigitFile p) es @ filter isDigitFile es"
  proof (elim disjE exE conjE)
    fix items entries
    assume "es = sort_entries entries"
    then show ?thesis by (simp add: sort_entries_partition partition_again)
  next
    assume "es = []"
    then show ?thesis by simp
  next
    assume "es = [path r @ ''/'' @ subPath @ extension r]"
    then show ?thesis by simp
  qed
next
  fix items entries
  assume a: "fetchDirectory r subPath = Inr (Some items)
             \<and> list_items (n - 1) r subPath items [] = Some (Inr entries)"
  with list_entries_cases [OF assms] have "es = sort_entries entries" by auto
  then show "es = filter (\<lambda>p. \<not> isDigitFile p) entries @ filter isDigitFile entries"
    by (simp add: sort_entries_partition)
next
  let ?prefix = "if subPath \<noteq> [] then path r @ ''/'' @ subPath else path r"
  assume a: "extension r = ''.md''
             \<and> fetchDirectory r subPath
                 = Inr (Some [\<lparr>item_type = ''file'', item_name = ''2024-01-01.md''\<rparr>,
                              \<lparr>item_type = ''file'', item_name = ''notes.md''\<rparr>])"
  have e: "endsWith ''2024-01-01.md'' ''.md''" "endsWith ''notes.md'' ''.md''"
    by (simp_all add: endsWith_def)
  have "list_items (n - 1) r subPath
          [\<lparr>item_type = ''file'', item_name = ''2024-01-01.md''\<rparr>,
           \<lparr>item_type = ''file'', item_name = ''notes.md''\<rparr>] []
        = Some (Inr [?prefix @ ''/2024-01-01.md'', ?prefix @ ''/notes.md''])"
    using a e by simp
  with a list_entries_cases [OF assms]
  have es: "es = sort_entries [?prefix @ ''/2024-01-01.md'', ?prefix @ ''/notes.md'']"
    by auto
  have "last_segment (?prefix @ ''/'' @ ''2024-01-01.md'') = ''2024-01-01.md''"
    "last_segment (?prefix @ ''/'' @ ''notes.md'') = ''notes.md''"
    by (rule last_segment_file, simp)+
  then have "isDigitFile (?prefix @ ''/2024-01-01.md'')" "\<not> isDigitFile (?prefix @ ''/notes.md'')"
    by (simp_all add: isDigitFile_def is_digit_def)
  then show "es = [?prefix @ ''/notes.md'', ?prefix @ ''/2024-01-01.md'']"
    unfolding es sort_entries_partition by simp
qed

theorem list_digit_names_last_stable_witness:
  "list_entries (Suc 0) diary [] = Some (Inr [''diary/notes.md'', ''diary/2024-01-01.md''])
   \<and> extension diary = ''.md''
   \<and> fetchDirectory diary []
        = Inr (Some [\<lparr>item_type = ''file'', item_name = ''2024-01-01.md''\<rparr>,
                     \<lparr>item_type = ''file'', item_name = ''notes.md''\<rparr>])
   \<and> [''diary/notes.md'', ''diary/2024-01-01.md'']
        = filter (\<lambda>p. \<not> isDigitFile p) [''diary/notes.md'', ''diary/2024-01-01.md'']
          @ filter isDigitFile [''diary/notes.md'', ''diary/2024-01-01.md'']"
proof -
  have e: "extension diary = ''.md''" by (simp add: diary_def)
  from list_digit_names_last_stable [OF diary_listing]
  have "[''diary/notes.md'', ''diary/2024-01-01.md'']
        = filter (\<lambda>p. \<not> isDigitFile p) [''diary/notes.md'', ''diary/2024-01-01.md'']
          @ filter isDigitFile [''diary/notes.md'', ''diary/2024-01-01.md'']"
    by (rule conjunct1)
  with diary_listing e diary_directory show ?thesis by (intro conjI)
qed


subsection \<open>Entries are files (C9)\<close>

text \<open>
  C9. When the configured extension is not empty and does not end with the path
  separator, every entry that \<open>list\<close> returns is a path below the repository path that
  ends with the extension, and none ends with the separator. So the filter for directory
  markers in \<open>get\<close> selects nothing from a listing, and \<open>get\<close> never takes the branch that
  calls itself.
\<close>

theorem list_entries_are_files:
  assumes "list_entries n r subPath = Some (Inr es)"
    and "extension r \<noteq> []" and "last (extension r) \<noteq> CHR ''/''"
  shows "(\<forall>e \<in> set es. prefix (path r @ ''/'') e \<and> endsWith e (extension r) \<and> \<not> endsWith e ''/'')
         \<and> dir_entries es = []
         \<and> (\<forall>date latest date' latest'. get_plan r date latest es \<noteq> Recurse date' latest')"
proof -
  have ok: "\<forall>e \<in> set es. entry_ok r e" using assms(1) by (rule list_entries_ok(1))
  have nd: "\<not> endsWith e ''/''" if "e \<in> set es" for e
  proof
    assume "endsWith e ''/''"
    then have "last e = CHR ''/''" using endsWith_last [of e "''/''"] by simp
    moreover have "last e = last (extension r)"
      using ok that assms(2) endsWith_last [of e "extension r"] by (simp add: entry_ok_def)
    ultimately show False using assms(3) by simp
  qed
  then have d: "dir_entries es = []" by (simp add: dir_entries_def)
  then have "get_plan r date latest es \<noteq> Recurse date' latest'" for date latest date' latest'
    by (simp add: get_plan_def Let_def)
  with ok nd d show ?thesis by (simp add: entry_ok_def)
qed

theorem list_entries_are_files_witness:
  "list_entries (Suc 0) diary [] = Some (Inr [''diary/notes.md'', ''diary/2024-01-01.md''])
   \<and> extension diary \<noteq> [] \<and> last (extension diary) \<noteq> CHR ''/''
   \<and> endsWith ''diary/notes.md'' (extension diary) \<and> \<not> endsWith ''diary/notes.md'' ''/''
   \<and> dir_entries [''diary/notes.md'', ''diary/2024-01-01.md''] = []"
proof -
  have a: "extension diary \<noteq> []" and b: "last (extension diary) \<noteq> CHR ''/''"
    by (simp_all add: diary_def)
  from list_entries_are_files [OF diary_listing a b]
  have all: "\<forall>e \<in> set [''diary/notes.md'', ''diary/2024-01-01.md''].
               prefix (path diary @ ''/'') e \<and> endsWith e (extension diary) \<and> \<not> endsWith e ''/''"
    and none: "dir_entries [''diary/notes.md'', ''diary/2024-01-01.md''] = []"
    by (rule conjunct1, rule conjunct2 [THEN conjunct1])
  from all have "endsWith ''diary/notes.md'' (extension diary)" "\<not> endsWith ''diary/notes.md'' ''/''"
    by (simp_all del: last.simps)
  with diary_listing a b none show ?thesis by (intro conjI)
qed


subsection \<open>The branches of get\<close>

text \<open>
  Every entry that \<open>list\<close> returns ends with the extension, so in \<open>get\<close> the array
  \<open>files\<close> is the whole listing. The branch for a listing that has directory markers and
  no file is therefore never taken: \<open>list\<close> has already descended into the
  directories, and \<open>get\<close> fetches from the flattened listing, or the path guessed from
  \<open>date\<close>, and does not call itself.
\<close>

lemma listing_holds_files_only:
  assumes "list_entries n r date = Some (Inr items)"
  shows "file_entries r items = items"
  using list_entries_ok(1) [OF assms] by (simp add: file_entries_def entry_ok_def)

lemma get_plan_of_listing:
  assumes "list_entries n r date = Some (Inr items)"
  shows "get_plan r date latest items =
           (if items \<noteq> [] then FetchEntries (if latest then [last items] else items)
            else if date \<noteq> []
            then FetchEntries [path r @ ''/'' @ (if endsWith date (extension r) then date
                                                 else date @ extension r)]
            else NoEntries)"
  by (simp add: get_plan_def Let_def listing_holds_files_only [OF assms] dir_entries_def)

lemma get_without_recursion:
  "get md (Suc n) r date latest raw =
     (case list_entries (Suc n) r date of
        None \<Rightarrow> None
      | Some (Inl e) \<Rightarrow> Some (Inl e)
      | Some (Inr items) \<Rightarrow>
          (if items \<noteq> [] then Some (fetchEntries md r (if latest then [last items] else items) raw)
           else if date \<noteq> []
           then Some (fetchEntries md r
                        [path r @ ''/'' @ (if endsWith date (extension r) then date
                                           else date @ extension r)] raw)
           else Some (Inr [])))"
proof (cases "list_entries (Suc n) r date")
  case None
  then show ?thesis by simp
next
  case (Some res)
  show ?thesis
  proof (cases res)
    case (Inl e)
    with Some show ?thesis by simp
  next
    case (Inr items)
    with Some have l: "list_entries (Suc n) r date = Some (Inr items)" by simp
    show ?thesis
      by (simp add: l get_plan_of_listing [OF l] del: list_entries.simps)
  qed
qed


subsection \<open>Batch fetch (C6)\<close>

lemma fetch_loop_spec:
  assumes "fetch_loop md r raw filePaths acc = Inr es"
  shows "\<exists>new. es = acc @ new \<and> map entry_path new = filter (has_content r) filePaths
           \<and> (\<forall>e \<in> set new. \<exists>content.
                 fetchReflection r (drop (length (path r) + 1) (entry_path e)) = Inr (Some content)
                 \<and> content \<noteq> []
                 \<and> entry_reflection e = (if raw then RawText content else Parsed (md content)))"
  using assms
proof (induction filePaths arbitrary: acc)
  case Nil
  then show ?case by simp
next
  case (Cons f rest)
  let ?fetched = "fetchReflection r (drop (length (path r) + 1) f)"
  show ?case
  proof (cases "has_content r f")
    case True
    then obtain content where c: "?fetched = Inr (Some content)" "content \<noteq> []"
      by (auto simp: has_content_def split: sum.splits option.splits)
    let ?e = "\<lparr>entry_path = f,
               entry_reflection = (if raw then RawText content else Parsed (md content))\<rparr>"
    from Cons.prems c have "fetch_loop md r raw rest (acc @ [?e]) = Inr es"
      by (simp add: Let_def)
    from Cons.IH [OF this] obtain new where
      n: "es = (acc @ [?e]) @ new" "map entry_path new = filter (has_content r) rest"
        "\<forall>e \<in> set new. \<exists>content.
           fetchReflection r (drop (length (path r) + 1) (entry_path e)) = Inr (Some content)
           \<and> content \<noteq> []
           \<and> entry_reflection e = (if raw then RawText content else Parsed (md content))"
      by blast
    have "es = acc @ (?e # new)" using n(1) by simp
    moreover have "map entry_path (?e # new) = filter (has_content r) (f # rest)"
      using n(2) True by simp
    moreover have "\<forall>e \<in> set (?e # new). \<exists>content.
           fetchReflection r (drop (length (path r) + 1) (entry_path e)) = Inr (Some content)
           \<and> content \<noteq> []
           \<and> entry_reflection e = (if raw then RawText content else Parsed (md content))"
      using n(3) c by auto
    ultimately show ?thesis by blast
  next
    case False
    with Cons.prems have "fetch_loop md r raw rest acc = Inr es"
      by (auto simp: has_content_def Let_def split: sum.splits option.splits if_splits)
    from Cons.IH [OF this] False show ?thesis by simp
  qed
qed

lemma fetch_loop_returns:
  "\<forall>f \<in> set filePaths. fetchReflection r (drop (length (path r) + 1) f) \<noteq> Inl ERR_RAW_REQUEST
   \<Longrightarrow> \<exists>es. fetch_loop md r raw filePaths acc = Inr es"
proof (induction filePaths arbitrary: acc)
  case Nil
  then show ?case by simp
next
  case (Cons f rest)
  have "fetchReflection r p \<noteq> Inl e" if "fetchReflection r p \<noteq> Inl ERR_RAW_REQUEST" for p e
    using that by (auto simp: fetchReflection_def split: raw_response.splits)
  with Cons show ?case
    by (auto simp: Let_def split: sum.splits option.splits)
qed

text \<open>
  C6. \<open>#fetchEntries\<close> returns one record for each path whose fetch gave content that is
  not empty, in the order of the input paths; every path whose fetch resolved to
  not-found is left out, and so is a path whose content is the empty string. The records
  are values of the record type, never \<open>null\<close>. Given two paths, the first with content
  that is not empty and the second missing, the result is the one record of the first.
\<close>

theorem fetchEntries_in_order_without_missing:
  assumes "fetchEntries md r filePaths raw = Inr es"
  shows "map entry_path es = filter (has_content r) filePaths
         \<and> subseq (map entry_path es) filePaths
         \<and> (\<forall>e \<in> set es. \<exists>content.
               fetchReflection r (drop (length (path r) + 1) (entry_path e)) = Inr (Some content)
               \<and> content \<noteq> []
               \<and> entry_reflection e = (if raw then RawText content else Parsed (md content)))
         \<and> (\<forall>f \<in> set filePaths.
               fetchReflection r (drop (length (path r) + 1) f) = Inr None
               \<longrightarrow> f \<notin> entry_path ` set es)
         \<and> (\<forall>p1 p2 content.
               filePaths = [p1, p2]
               \<and> fetchReflection r (drop (length (path r) + 1) p1) = Inr (Some content)
               \<and> content \<noteq> []
               \<and> fetchReflection r (drop (length (path r) + 1) p2) = Inr None
               \<longrightarrow> es = [\<lparr>entry_path = p1,
                           entry_reflection = (if raw then RawText content else Parsed (md content))\<rparr>])"
proof -
  from fetch_loop_spec [of md r raw filePaths "[]" es] assms
  have paths: "map entry_path es = filter (has_content r) filePaths"
    and each: "\<forall>e \<in> set es. \<exists>content.
               fetchReflection r (drop (length (path r) + 1) (entry_path e)) = Inr (Some content)
               \<and> content \<noteq> []
               \<and> entry_reflection e = (if raw then RawText content else Parsed (md content))"
    by (auto simp: fetchEntries_def)
  have sub: "subseq (map entry_path es) filePaths"
    by (simp add: paths)
  have missing: "f \<notin> entry_path ` set es"
    if "fetchReflection r (drop (length (path r) + 1) f) = Inr None" for f
  proof -
    have "\<not> has_content r f" using that by (simp add: has_content_def)
    then have "f \<notin> set (map entry_path es)" by (simp add: paths)
    then show ?thesis by simp
  qed
  have two: "es = [\<lparr>entry_path = p1,
                     entry_reflection = (if raw then RawText content else Parsed (md content))\<rparr>]"
    if "filePaths = [p1, p2]
        \<and> fetchReflection r (drop (length (path r) + 1) p1) = Inr (Some content)
        \<and> content \<noteq> []
        \<and> fetchReflection r (drop (length (path r) + 1) p2) = Inr None" for p1 p2 content
    using that assms by (simp add: fetchEntries_def Let_def)
  from paths sub each missing two show ?thesis by blast
qed

theorem fetchEntries_in_order_without_missing_witness:
  "fetchEntries (\<lambda>text. text) diary [''diary/notes.md'', ''diary/missing.md''] True
     = Inr [\<lparr>entry_path = ''diary/notes.md'', entry_reflection = RawText ''# Notes''\<rparr>]
   \<and> fetchReflection diary ''notes.md'' = Inr (Some ''# Notes'')
   \<and> fetchReflection diary ''missing.md'' = Inr None
   \<and> map entry_path
         [\<lparr>entry_path = ''diary/notes.md'', entry_reflection = RawText ''# Notes'' :: string document\<rparr>]
       = filter (has_content diary) [''diary/notes.md'', ''diary/missing.md'']"
proof -
  have a: "fetchReflection diary ''notes.md'' = Inr (Some ''# Notes'')"
    and b: "fetchReflection diary ''missing.md'' = Inr None"
    by (simp_all add: fetchReflection_def diary_def)
  have p: "path diary = ''diary''" by (simp add: diary_def)
  have c: "fetchEntries (\<lambda>text. text) diary [''diary/notes.md'', ''diary/missing.md''] True
             = Inr [\<lparr>entry_path = ''diary/notes.md'', entry_reflection = RawText ''# Notes''\<rparr>]"
    by (simp add: fetchEntries_def Let_def p a b)
  from fetchEntries_in_order_without_missing [OF c]
  have "map entry_path
         [\<lparr>entry_path = ''diary/notes.md'', entry_reflection = RawText ''# Notes'' :: string document\<rparr>]
          = filter (has_content diary) [''diary/notes.md'', ''diary/missing.md'']"
    by (rule conjunct1)
  with c a b show ?thesis by (intro conjI)
qed

text \<open>
  The claim as written gives one record whenever the second of two paths is missing.
  A first path whose file exists and is empty gives none.
\<close>

theorem empty_content_counterexample:
  "fetchReflection diary ''2024-01-01.md'' = Inr (Some [])
   \<and> fetchReflection diary ''missing.md'' = Inr None
   \<and> fetchEntries (\<lambda>text. text) diary [''diary/2024-01-01.md'', ''diary/missing.md''] True = Inr []"
proof -
  have a: "fetchReflection diary ''2024-01-01.md'' = Inr (Some [])"
    and b: "fetchReflection diary ''missing.md'' = Inr None"
    by (simp_all add: fetchReflection_def diary_def)
  have p: "path diary = ''diary''" by (simp add: diary_def)
  show ?thesis
    by (simp add: fetchEntries_def Let_def p a b)
qed


section \<open>Properties of the injection\<close>

subsection \<open>Searching for a marker\<close>

lemma split_first_sound: "split_first n h = Some (a, b) \<Longrightarrow> h = a @ n @ b"
proof (induction h arbitrary: a)
  case Nil
  then show ?case by (simp split: if_splits)
next
  case (Cons c cs)
  show ?case
  proof (cases "prefix n (c # cs)")
    case True
    with Cons.prems show ?thesis by (auto simp: prefix_def)
  next
    case False
    with Cons.prems obtain a' where "split_first n cs = Some (a', b)" "a = c # a'"
      by (auto split: option.splits)
    with Cons.IH show ?thesis by simp
  qed
qed

lemma split_first_at_needle: "split_first n (n @ h) = Some ([], h)"
proof (cases "n @ h")
  case Nil
  then show ?thesis by simp
next
  case (Cons c cs)
  from Cons have e: "c # cs = n @ h" by simp
  have "prefix n (c # cs)" unfolding e by (simp add: prefix_def)
  moreover have "drop (length n) (c # cs) = h" unfolding e by simp
  ultimately show ?thesis by (simp add: Cons)
qed

lemma prefix_long: "length n \<le> length u \<Longrightarrow> prefix n (u @ v) = prefix n u"
  by (auto simp: prefix_append)

lemma split_first_same_start:
  "split_first n h = Some (a, b) \<Longrightarrow> split_first n (a @ n @ x) = Some (a, x)"
proof (induction h arbitrary: a)
  case Nil
  then have "n = []" "a = []" by (auto split: if_splits)
  then show ?case using split_first_at_needle [of "[]" x] by simp
next
  case (Cons c cs)
  show ?case
  proof (cases "prefix n (c # cs)")
    case True
    with Cons.prems have "a = []" by simp
    then show ?thesis by (simp add: split_first_at_needle)
  next
    case False
    with Cons.prems obtain a' where s: "split_first n cs = Some (a', b)" and a: "a = c # a'"
      by (auto split: option.splits)
    from split_first_sound [OF s] have cs: "cs = a' @ n @ b" .
    have "prefix n ((c # a' @ n) @ b) = prefix n (c # a' @ n)"
      by (rule prefix_long) simp
    moreover have "prefix n ((c # a' @ n) @ x) = prefix n (c # a' @ n)"
      by (rule prefix_long) simp
    ultimately have "\<not> prefix n (c # a' @ n @ x)" using False cs by simp
    then show ?thesis using Cons.IH [OF s] a by simp
  qed
qed

lemma split_first_skip_foreign:
  assumes "n \<noteq> []" and "hd n \<notin> set a"
  shows "split_first n (a @ h) = map_option (\<lambda>(x, y). (a @ x, y)) (split_first n h)"
  using assms(2)
proof (induction a)
  case Nil
  then show ?case by (simp add: option.map_ident split_def)
next
  case (Cons c cs)
  from assms(1) obtain d ds where n: "n = d # ds" by (cases n) auto
  with Cons.prems have "\<not> prefix n (c # cs @ h)" by auto
  then show ?case using Cons by (auto split: option.splits)
qed

lemma split_first_skip_free:
  assumes "split_first n a = None" and "b \<noteq> []" and "hd b \<notin> set n"
  shows "split_first n (a @ b) = map_option (\<lambda>(x, y). (a @ x, y)) (split_first n b)"
  using assms(1)
proof (induction a)
  case Nil
  then show ?case by (simp add: option.map_ident split_def)
next
  case (Cons c cs)
  from Cons.prems have np: "\<not> prefix n (c # cs)" and r: "split_first n cs = None"
    by (auto split: if_splits option.splits)
  have "\<not> prefix n ((c # cs) @ b)"
  proof
    assume p: "prefix n ((c # cs) @ b)"
    then have "prefix n (c # cs) \<or> (\<exists>us. n = (c # cs) @ us \<and> prefix us b)"
      by (rule prefix_append [THEN iffD1])
    with np obtain us where us: "prefix us b" "n = (c # cs) @ us"
      by blast
    with np have "us \<noteq> []" by auto
    with us(1) have "hd b = hd us" by (auto simp: prefix_def)
    with \<open>us \<noteq> []\<close> have "hd b \<in> set us" by simp
    with us(2) assms(3) show False by simp
  qed
  then show ?case using Cons.IH [OF r] by (auto split: option.splits)
qed


lemma substitute_plain_char:
  "c \<noteq> CHR ''$'' \<Longrightarrow> substitute m (c # xs) = c # substitute m xs"
  by (cases xs) simp_all

lemma substitute_plain:
  "CHR ''$'' \<notin> set xs \<Longrightarrow> substitute m (xs @ ys) = xs @ substitute m ys"
proof (induction xs)
  case Nil
  then show ?case by simp
next
  case (Cons x xs)
  then have "x \<noteq> CHR ''$''" by auto
  then have "substitute m (x # xs @ ys) = x # substitute m (xs @ ys)"
    by (rule substitute_plain_char)
  with Cons show ?case by simp
qed

lemma substitute_first_capture:
  "m_captures m = [s, e] \<Longrightarrow> \<not> is_digit c
   \<Longrightarrow> substitute m (CHR ''$'' # CHR ''1'' # c # xs) = s @ substitute m (c # xs)"
  by (simp add: one_digit_ref_def is_digit_def digit_val_def)

lemma substitute_second_capture:
  "m_captures m = [s, e] \<Longrightarrow> substitute m ''$2'' = e"
  by (simp add: one_digit_ref_def is_digit_def digit_val_def)


subsection \<open>Expanding the replacement string\<close>

lemma next_ref_within:
  assumes "ordinary c" and "xs \<noteq> []"
  shows "1 \<le> snd (next_ref m (xs @ c # tail)) \<and> snd (next_ref m (xs @ c # tail)) \<le> length xs"
proof (cases xs)
  case Nil
  with assms show ?thesis by simp
next
  case one: (Cons x ys)
  show ?thesis
  proof (cases ys)
    case Nil
    with one assms(1) show ?thesis by (simp add: ordinary_def)
  next
    case two: (Cons d zs)
    show ?thesis
    proof (cases zs)
      case Nil
      with one two assms(1) show ?thesis
        by (simp add: ordinary_def one_digit_ref_def Let_def)
    next
      case (Cons e ws)
      with one two show ?thesis
        by (simp add: one_digit_ref_def two_digit_ref_def Let_def)
    qed
  qed
qed

lemma substitute_through:
  assumes "ordinary c"
  shows "suffix (substitute m (c # tail)) (substitute m (xs @ c # tail))"
proof (induction xs rule: length_induct)
  case (1 xs)
  show ?case
  proof (cases xs)
    case Nil
    then show ?thesis by simp
  next
    case (Cons x ys)
    obtain rep len where r: "next_ref m (xs @ c # tail) = (rep, len)"
      by (cases "next_ref m (xs @ c # tail)")
    with next_ref_within [OF assms, of xs m tail] Cons
    have len: "1 \<le> len" "len \<le> length xs" by auto
    have "substitute m (xs @ c # tail) = rep @ substitute m (drop len (xs @ c # tail))"
      using r by (simp add: Cons)
    also have "drop len (xs @ c # tail) = drop len xs @ c # tail"
      using len by simp
    finally have e: "substitute m (xs @ c # tail) = rep @ substitute m (drop len xs @ c # tail)" .
    have "length (drop len xs) < length xs" using len Cons by simp
    with 1 have "suffix (substitute m (c # tail)) (substitute m (drop len xs @ c # tail))"
      by blast
    then show ?thesis unfolding e by (rule suffix_appendI)
  qed
qed


lemma end_marker_facts:
  "end_marker mk \<noteq> []" "hd (end_marker mk) = CHR ''<''" "CHR 0x0A \<notin> set (end_marker mk)"
  by (cases mk; simp add: end_marker_def)+

lemma line_feed_ordinary: "ordinary (CHR 0x0A)"
  by (simp add: ordinary_def is_digit_def)

lemma jsonBlock_expand_any:
  assumes "m_captures m = [s, e]"
  shows "\<exists>block. substitute m (jsonBlock json) = s @ block @ e"
proof -
  let ?head = "CHR 0x0A # fence @ ''json''" and ?tail = "CHR 0x0A # fence @ [CHR 0x0A]"
  have j: "jsonBlock json
             = CHR ''$'' # CHR ''1'' # CHR 0x0A # (fence @ ''json'') @ CHR 0x0A # json @ ?tail @ ''$2''"
    by (simp add: jsonBlock_def)
  have "substitute m (jsonBlock json)
          = s @ substitute m (?head @ CHR 0x0A # json @ ?tail @ ''$2'')"
    unfolding j using assms by (subst substitute_first_capture) (simp_all add: is_digit_def)
  also have "substitute m (?head @ CHR 0x0A # json @ ?tail @ ''$2'')
          = ?head @ substitute m (CHR 0x0A # json @ ?tail @ ''$2'')"
    by (rule substitute_plain) (simp add: fence_def)
  also have "substitute m (CHR 0x0A # json @ ?tail @ ''$2'')
          = CHR 0x0A # substitute m (json @ ?tail @ ''$2'')"
    by (rule substitute_plain_char) simp
  finally have a: "substitute m (jsonBlock json)
          = s @ ?head @ CHR 0x0A # substitute m (json @ ?tail @ ''$2'')" .
  have "suffix (substitute m (?tail @ ''$2'')) (substitute m (json @ ?tail @ ''$2''))"
    using substitute_through [OF line_feed_ordinary, of m "fence @ [CHR 0x0A] @ ''$2''" json]
    by simp
  then obtain mid where b: "substitute m (json @ ?tail @ ''$2'') = mid @ substitute m (?tail @ ''$2'')"
    by (auto simp: suffix_def)
  have "substitute m (?tail @ ''$2'') = ?tail @ substitute m ''$2''"
    by (rule substitute_plain) (simp add: fence_def)
  then have c: "substitute m (?tail @ ''$2'') = ?tail @ e"
    using assms by (simp only: substitute_second_capture)
  have "substitute m (jsonBlock json) = s @ (?head @ CHR 0x0A # mid @ ?tail) @ e"
    unfolding a b c by simp
  then show ?thesis by blast
qed

lemma jsonBlock_expand_plain:
  assumes "m_captures m = [s, e]" and "CHR ''$'' \<notin> set json"
  shows "substitute m (jsonBlock json) = s @ fenced json @ e"
proof -
  let ?rest = "CHR 0x0A # fence @ ''json'' @ CHR 0x0A # json @ CHR 0x0A # fence @ [CHR 0x0A]"
  have j: "jsonBlock json = CHR ''$'' # CHR ''1'' # CHR 0x0A # tl ?rest @ ''$2''"
    by (simp add: jsonBlock_def)
  have "substitute m (jsonBlock json) = s @ substitute m (?rest @ ''$2'')"
    unfolding j using assms(1) by (subst substitute_first_capture) (simp_all add: is_digit_def)
  also have "substitute m (?rest @ ''$2'') = ?rest @ substitute m ''$2''"
    using assms(2) by (intro substitute_plain) (simp add: fence_def)
  also have "substitute m ''$2'' = e"
    using assms(1) by (rule substitute_second_capture)
  finally show ?thesis by (simp add: fenced_def)
qed

lemma match_block_sound:
  assumes "match_block mk doc = Some (b, mid, a)"
  shows "doc = b @ start_marker mk @ mid @ end_marker mk @ a"
    and "\<exists>rest. split_first (start_marker mk) doc = Some (b, rest)
                \<and> split_first (end_marker mk) rest = Some (mid, a)"
proof -
  from assms obtain rest where
    s: "split_first (start_marker mk) doc = Some (b, rest)"
    and e: "split_first (end_marker mk) rest = Some (mid, a)"
    by (auto simp: match_block_def split: option.splits)
  from split_first_sound [OF s] split_first_sound [OF e]
  show "doc = b @ start_marker mk @ mid @ end_marker mk @ a" by simp
  from s e show "\<exists>rest. split_first (start_marker mk) doc = Some (b, rest)
                \<and> split_first (end_marker mk) rest = Some (mid, a)" by blast
qed

lemma split_end_after_fenced:
  assumes "\<not> occurs_in (end_marker mk) json"
  shows "split_first (end_marker mk) (fenced json @ end_marker mk @ a) = Some (fenced json, a)"
proof -
  let ?E = "end_marker mk"
  let ?head = "CHR 0x0A # fence @ ''json'' @ [CHR 0x0A]" and ?tail = "CHR 0x0A # fence @ [CHR 0x0A]"
  have f: "fenced json @ ?E @ a = ?head @ json @ ?tail @ ?E @ a"
    by (simp add: fenced_def)
  have none: "split_first ?E json = None" using assms unfolding occurs_in_def by blast
  have 1: "split_first ?E (?tail @ ?E @ a) = Some (?tail, a)"
    using split_first_skip_foreign [of ?E ?tail "?E @ a"]
    by (simp add: end_marker_facts fence_def split_first_at_needle del: split_first.simps)
  have 2: "split_first ?E (json @ ?tail @ ?E @ a) = Some (json @ ?tail, a)"
    using split_first_skip_free [OF none, of "?tail @ ?E @ a"] 1
    by (simp add: end_marker_facts del: split_first.simps)
  have 3: "split_first ?E (?head @ json @ ?tail @ ?E @ a) = Some (?head @ json @ ?tail, a)"
    using split_first_skip_foreign [of ?E ?head "json @ ?tail @ ?E @ a"] 2
    by (simp add: end_marker_facts fence_def del: split_first.simps)
  show ?thesis unfolding f 3 by (simp add: fenced_def)
qed

lemma inject_text_shape:
  assumes "match_block mk doc = Some (b, mid, a)"
  shows "\<exists>block. inject_text mk json doc = b @ start_marker mk @ block @ end_marker mk @ a"
proof -
  let ?m = "\<lparr>m_before = b, m_matched = start_marker mk @ mid @ end_marker mk,
             m_after = a, m_captures = [start_marker mk, end_marker mk]\<rparr>"
  obtain block where "substitute ?m (jsonBlock json) = start_marker mk @ block @ end_marker mk"
    using jsonBlock_expand_any [of ?m "start_marker mk" "end_marker mk" json] by auto
  then have "inject_text mk json doc = b @ start_marker mk @ block @ end_marker mk @ a"
    using assms by (simp add: inject_text_def replace_block_def)
  then show ?thesis by blast
qed

lemma inject_text_plain:
  assumes "match_block mk doc = Some (b, mid, a)" and "CHR ''$'' \<notin> set json"
  shows "inject_text mk json doc = b @ start_marker mk @ fenced json @ end_marker mk @ a"
  using assms by (simp add: inject_text_def replace_block_def jsonBlock_expand_plain)

lemma match_block_after_inject:
  assumes "match_block mk doc = Some (b, mid, a)" and "\<not> occurs_in (end_marker mk) json"
  shows "match_block mk (b @ start_marker mk @ fenced json @ end_marker mk @ a)
           = Some (b, fenced json, a)"
proof -
  from match_block_sound(2) [OF assms(1)] obtain rest where
    "split_first (start_marker mk) doc = Some (b, rest)" by blast
  then have "split_first (start_marker mk) (b @ start_marker mk @ fenced json @ end_marker mk @ a)
               = Some (b, fenced json @ end_marker mk @ a)"
    by (rule split_first_same_start)
  then show ?thesis
    by (simp add: match_block_def split_end_after_fenced [OF assms(2)])
qed

lemma host_document_match:
  "match_block Memory host_document = Some (''# Skill '', [], '' end'')"
  by (simp add: match_block_def host_document_def start_marker_def end_marker_def)


subsection \<open>Text outside the markers\<close>

text \<open>
  For a host document that contains the pair of markers, an injection leaves the text
  before the start marker, the two markers and the text after the end marker as they
  are, for every payload. When the serialised payload has no dollar sign and does not
  contain the end marker, the injected block is the fenced payload and a second
  injection of the same payload gives the same document.
\<close>

lemma injection_keeps_outside_and_repeats:
  assumes "match_block mk doc = Some (before, between, after)"
  shows "doc = before @ start_marker mk @ between @ end_marker mk @ after
         \<and> (\<exists>block. inject_text mk json doc
                       = before @ start_marker mk @ block @ end_marker mk @ after)
         \<and> (CHR ''$'' \<notin> set json \<and> \<not> occurs_in (end_marker mk) json
              \<longrightarrow> inject_text mk json doc
                    = before @ start_marker mk @ fenced json @ end_marker mk @ after
                  \<and> inject_text mk json (inject_text mk json doc) = inject_text mk json doc)"
proof (intro conjI impI)
  show "doc = before @ start_marker mk @ between @ end_marker mk @ after"
    using assms by (rule match_block_sound(1))
  show "\<exists>block. inject_text mk json doc = before @ start_marker mk @ block @ end_marker mk @ after"
    using assms by (rule inject_text_shape)
next
  assume a: "CHR ''$'' \<notin> set json \<and> \<not> occurs_in (end_marker mk) json"
  then show first: "inject_text mk json doc
                      = before @ start_marker mk @ fenced json @ end_marker mk @ after"
    using assms by (simp add: inject_text_plain)
  from a assms
  have "match_block mk (before @ start_marker mk @ fenced json @ end_marker mk @ after)
          = Some (before, fenced json, after)"
    by (simp add: match_block_after_inject)
  with a have "inject_text mk json (before @ start_marker mk @ fenced json @ end_marker mk @ after)
          = before @ start_marker mk @ fenced json @ end_marker mk @ after"
    by (simp add: inject_text_plain)
  then show "inject_text mk json (inject_text mk json doc) = inject_text mk json doc"
    by (simp only: first)
qed


subsection \<open>Repeated injection (C7)\<close>

lemma first_injection_of_marker_payload:
  "inject_text Memory marker_payload host_document
     = ''# Skill '' @ start_marker Memory @ fenced marker_payload @ end_marker Memory @ '' end''"
  using inject_text_plain [OF host_document_match, of marker_payload]
  by (simp add: marker_payload_def)

lemma second_injection_of_marker_payload:
  \<open>inject_text Memory marker_payload
     (''# Skill '' @ start_marker Memory @ fenced marker_payload @ end_marker Memory @ '' end'')
   = ''# Skill '' @ start_marker Memory @ fenced marker_payload @ end_marker Memory
       @ ''"},"version":"1"}'' @ [CHR 0x0A] @ fence @ [CHR 0x0A] @ end_marker Memory @ '' end''\<close>
  by (simp add: inject_text_def replace_block_def match_block_def jsonBlock_def fence_def
      fenced_def start_marker_def end_marker_def marker_payload_def
      one_digit_ref_def is_digit_def digit_val_def)

text \<open>
  The payload is spliced into the replacement string as it is, so a reference such as
  \<open>$2\<close> inside the payload is expanded as well: the block written for the payload
  \<open>dollar_payload\<close> has the end marker where the payload has \<open>$2\<close>.
\<close>

lemma dollar_reference_in_payload:
  \<open>inject_text Memory dollar_payload host_document
     = ''# Skill '' @ start_marker Memory @ [CHR 0x0A] @ fence @ ''json'' @ [CHR 0x0A]
       @ ''{"profiles":{"A":"cost '' @ end_marker Memory @ ''"},"version":"1"}''
       @ [CHR 0x0A] @ fence @ [CHR 0x0A] @ end_marker Memory @ '' end''\<close>
  by (simp add: inject_text_def replace_block_def match_block_def jsonBlock_def fence_def
      start_marker_def end_marker_def host_document_def dollar_payload_def
      one_digit_ref_def is_digit_def digit_val_def)

text \<open>
  C7. Injecting the same payload a second time is to give the document of the first
  injection, byte for byte, for every host document with the pair of markers and every
  payload; \<open>#injectData\<close> replaces the whole block between the markers. On the host
  document \<open>host_document\<close> and the payload \<open>marker_payload\<close>, the serialisation of a
  profile whose value is the text of the end marker, the run does not: the first
  injection writes the fenced payload, the second one matches up to the end marker
  quoted in that payload, and the rest of the first block stays in the document behind
  the new block.
\<close>

theorem repeated_injection_of_marker_payload:
  \<open>match_block Memory host_document = Some (''# Skill '', [], '' end'')
   \<and> inject_text Memory marker_payload host_document
       = ''# Skill '' @ start_marker Memory @ fenced marker_payload @ end_marker Memory @ '' end''
   \<and> inject_text Memory marker_payload (inject_text Memory marker_payload host_document)
       = ''# Skill '' @ start_marker Memory @ fenced marker_payload @ end_marker Memory
         @ ''"},"version":"1"}'' @ [CHR 0x0A] @ fence @ [CHR 0x0A] @ end_marker Memory @ '' end''
   \<and> inject_text Memory marker_payload (inject_text Memory marker_payload host_document)
       \<noteq> inject_text Memory marker_payload host_document\<close>
proof -
  have second:
    \<open>inject_text Memory marker_payload (inject_text Memory marker_payload host_document)
       = ''# Skill '' @ start_marker Memory @ fenced marker_payload @ end_marker Memory
         @ ''"},"version":"1"}'' @ [CHR 0x0A] @ fence @ [CHR 0x0A] @ end_marker Memory @ '' end''\<close>
    by (simp only: first_injection_of_marker_payload second_injection_of_marker_payload)
  have differ:
    \<open>''# Skill '' @ start_marker Memory @ fenced marker_payload @ end_marker Memory
         @ ''"},"version":"1"}'' @ [CHR 0x0A] @ fence @ [CHR 0x0A] @ end_marker Memory @ '' end''
       \<noteq> ''# Skill '' @ start_marker Memory @ fenced marker_payload @ end_marker Memory @ '' end''\<close>
    by simp
  have "inject_text Memory marker_payload (inject_text Memory marker_payload host_document)
          \<noteq> inject_text Memory marker_payload host_document"
    by (subst second, subst first_injection_of_marker_payload) (rule differ)
  with host_document_match first_injection_of_marker_payload second
  show ?thesis by (intro conjI)
qed


section \<open>Properties of the generator\<close>

subsection \<open>Exceptions of the steps\<close>

lemma later_errors_mem:
  "TypeError \<in> later_errors" "SystemError \<in> later_errors" "ZIP_CREATE_ERROR \<in> later_errors"
  by (simp_all add: later_errors_def)

lemma raises_only_return: "raises_only S (return x)"
  by (simp add: raises_only_def return_def)

lemma raises_only_throw: "e \<in> S \<Longrightarrow> raises_only S (throw e)"
  by (simp add: raises_only_def throw_def)

lemma raises_only_bind:
  assumes "raises_only S step" and "\<And>x. raises_only S (rest x)"
  shows "raises_only S (bind step rest)"
  unfolding raises_only_def
proof (intro allI impI)
  fix w e w'
  assume a: "bind step rest w = (Inl e, w')"
  obtain res w1 where s: "step w = (res, w1)" by (cases "step w")
  show "e \<in> S"
  proof (cases res)
    case (Inl e')
    with a s have "step w = (Inl e, w1)" by (simp add: bind_def)
    with assms(1) show ?thesis unfolding raises_only_def by blast
  next
    case (Inr x)
    with a s have "rest x w1 = (Inl e, w')" by (simp add: bind_def)
    with assms(2) [of x] show ?thesis unfolding raises_only_def by blast
  qed
qed

lemma raises_only_read: "raises_only later_errors (readFileSync p)"
  by (auto simp: raises_only_def readFileSync_def later_errors_mem split: option.splits)

lemma raises_only_write: "raises_only later_errors (writeFileSync p text)"
  by (auto simp: raises_only_def writeFileSync_def later_errors_mem split: if_splits)

lemma raises_only_clear: "raises_only later_errors (clearPayloadData g mk)"
  unfolding clearPayloadData_def Let_def
  by (auto split: option.splits
      intro!: raises_only_throw raises_only_bind raises_only_read raises_only_write
        later_errors_mem)

lemma raises_only_inject: "raises_only later_errors (injectData g mk data)"
  unfolding injectData_def Let_def
  by (auto split: option.splits
      intro!: raises_only_throw raises_only_bind raises_only_read raises_only_write
        later_errors_mem)

lemma raises_only_createZip: "raises_only later_errors (createZip g pName pVersion sName)"
  by (auto simp: raises_only_def createZip_def Let_def later_errors_mem
      split: option.splits if_splits)

lemma raises_only_zip_skills: "raises_only later_errors (zip_skills g e names paths)"
  by (induction names arbitrary: paths)
    (auto intro!: raises_only_return raises_only_bind raises_only_createZip)

lemma raises_only_zip_plugins: "raises_only later_errors (zip_plugins g es paths)"
  by (induction es arbitrary: paths)
    (auto split: option.splits
      intro!: raises_only_return raises_only_throw raises_only_bind raises_only_zip_skills
        later_errors_mem)

lemma raises_only_writeJson: "raises_only later_errors (writeJsonFile g filename data)"
  unfolding writeJsonFile_def Let_def
  by (auto intro!: raises_only_return raises_only_bind raises_only_write)

lemma raises_only_output: "raises_only later_errors (generateOutput g paths returnOnly)"
  by (auto simp: generateOutput_def Let_def raises_only_def return_def)

lemma raises_only_inject_both:
  "raises_only later_errors (inject_both g skipInject instructionsData memoryData)"
  unfolding inject_both_def
  by (auto intro!: raises_only_return raises_only_bind raises_only_inject)

lemma generateSortedOutput_error:
  "generateSortedOutput cfg data key = Inl e \<Longrightarrow> e = TypeError"
  by (auto simp: generateSortedOutput_def Let_def split: option.splits)

lemma raises_only_checked:
  "raises_only later_errors (generate_checked g instructions profiles returnOnly skipInject)"
proof -
  have t: "raises_only later_errors (throw e)"
    if "generateSortedOutput cfg data key = Inl e" for cfg data key e and dummy :: "generated"
    using generateSortedOutput_error [OF that] by (auto intro!: raises_only_throw later_errors_mem)
  show ?thesis
    unfolding generate_checked_def
    by (auto split: sum.splits
        intro!: raises_only_bind raises_only_clear raises_only_zip_plugins raises_only_writeJson
          raises_only_inject_both raises_only_output t)
qed


lemma is_object_iff: "is_object v \<longleftrightarrow> (\<exists>xs. v = JArr xs) \<or> (\<exists>kvs. v = JObj kvs)"
  by (cases v) (simp_all add: is_object_def)

lemma generate_checked_not_invalid:
  "generate_checked g instructions profiles returnOnly skipInject w = (Inl e, w')
   \<Longrightarrow> e \<noteq> INVALID_INSTRUCTIONS \<and> e \<noteq> INVALID_PROFILES"
proof -
  assume "generate_checked g instructions profiles returnOnly skipInject w = (Inl e, w')"
  with raises_only_checked [of g instructions profiles returnOnly skipInject]
  have "e \<in> later_errors" unfolding raises_only_def by blast
  then show ?thesis by (auto simp: later_errors_def)
qed


subsection \<open>A run on valid input\<close>

lemma example_skill:
  "findSkillByKey example_settings ''methodology''
     = Some \<lparr>pluginName = ''fw'', pluginVersion = ''1.0'', skillName = ''method''\<rparr>"
  by (simp add: findSkillByKey_def example_settings_def skill_of_def)

lemma example_sorted:
  "generateSortedOutput example_settings (JObj []) key
     = Inr \<lparr>wrapper_key = key, units = [], version = ''1.0''\<rparr>"
  by (simp add: generateSortedOutput_def example_skill sorted_units_def visit_order_def
      object_keys_def own_entries_def from_entries_def property_order_def)

lemma example_skill_path:
  "local_skill_path example_generator
     \<lparr>pluginName = ''fw'', pluginVersion = ''1.0'', skillName = ''method''\<rparr>
   = ''/home/skills/fw/1.0/skills/method/SKILL.md''"
  by (simp add: local_skill_path_def example_generator_def example_settings_def)

lemma example_fields:
  "config example_generator = example_settings" "\<not> container example_generator"
  "\<not> isClaudeContainer example_generator" "stringify example_generator = wrapper_key"
  "render example_generator = out_profile" "profileName example_generator = ''DEVELOPER''"
  by (simp_all add: example_generator_def)

lemma example_inject_instructions:
  "injectData example_generator Instructions data example_world = (Inr (), example_world)"
  by (simp add: injectData_def Let_def example_fields example_skill example_skill_path bind_def
      readFileSync_def writeFileSync_def dirname_def example_world_def
      inject_text_def replace_block_def match_block_def start_marker_def end_marker_def)

lemma example_inject_memory:
  "injectData example_generator Memory
     \<lparr>wrapper_key = ''profiles'', units = [], version = ''1.0''\<rparr> example_world
   = (Inr (), example_world
        \<lparr>files := (files example_world)
           (''/home/skills/fw/1.0/skills/method/SKILL.md'' \<mapsto>
              start_marker Memory @ fenced ''profiles'' @ end_marker Memory)\<rparr>)"
  by (simp add: injectData_def Let_def example_fields example_skill example_skill_path bind_def
      readFileSync_def writeFileSync_def dirname_def example_world_def
      inject_text_def replace_block_def match_block_def start_marker_def end_marker_def
      jsonBlock_def fence_def fenced_def one_digit_ref_def is_digit_def digit_val_def)

lemma example_run:
  "fst (generate example_generator (JObj []) (JObj []) False False example_world) = Inr Printed
   \<and> stdout (snd (generate example_generator (JObj []) (JObj []) False False example_world))
       = [''DEVELOPER'']
   \<and> files (snd (generate example_generator (JObj []) (JObj []) False False example_world))
        ''/home/skills/fw/1.0/skills/method/SKILL.md''
       = Some (start_marker Memory @ fenced ''profiles'' @ end_marker Memory)"
  by (simp add: generate_def generate_checked_def example_fields example_sorted inject_both_def
      bind_def example_inject_instructions example_inject_memory generateOutput_def Let_def)
    (simp add: example_world_def)


subsection \<open>Validation of the arguments (C8)\<close>

text \<open>
  C8. \<open>generate\<close> raises \<open>INVALID_INSTRUCTIONS\<close> exactly when \<open>instructions\<close> is \<open>null\<close>
  or its \<open>typeof\<close> is not \<open>object\<close>, and \<open>INVALID_PROFILES\<close> exactly when
  \<open>instructions\<close> passes and \<open>profiles\<close> is \<open>null\<close> or not an object. When both are
  objects (arrays included) the call continues with the rest of the body, which raises
  neither of the two errors.
\<close>

theorem generate_invalid_input_iff:
  "(fst (generate g instructions profiles returnOnly skipInject w)
      \<in> {Inl INVALID_INSTRUCTIONS, Inl INVALID_PROFILES}
    \<longleftrightarrow> \<not> is_object instructions \<or> \<not> is_object profiles)
   \<and> (fst (generate g instructions profiles returnOnly skipInject w) = Inl INVALID_INSTRUCTIONS
    \<longleftrightarrow> \<not> is_object instructions)
   \<and> (fst (generate g instructions profiles returnOnly skipInject w) = Inl INVALID_PROFILES
    \<longleftrightarrow> is_object instructions \<and> \<not> is_object profiles)
   \<and> (is_object instructions \<and> is_object profiles
    \<longrightarrow> generate g instructions profiles returnOnly skipInject w
        = generate_checked g instructions profiles returnOnly skipInject w)"
proof -
  obtain res w' where c: "generate_checked g instructions profiles returnOnly skipInject w = (res, w')"
    by (cases "generate_checked g instructions profiles returnOnly skipInject w")
  have ok: "res \<noteq> Inl INVALID_INSTRUCTIONS" "res \<noteq> Inl INVALID_PROFILES"
    using generate_checked_not_invalid [of g instructions profiles returnOnly skipInject w _ w'] c
    by auto
  show ?thesis
  proof (cases "is_object instructions")
    case False
    then have "generate g instructions profiles returnOnly skipInject w = (Inl INVALID_INSTRUCTIONS, w)"
      by (simp add: generate_def is_object_def throw_def)
    with False show ?thesis by simp
  next
    case i: True
    show ?thesis
    proof (cases "is_object profiles")
      case False
      with i have "generate g instructions profiles returnOnly skipInject w = (Inl INVALID_PROFILES, w)"
        by (simp add: generate_def is_object_def throw_def)
      with i False show ?thesis by simp
    next
      case True
      with i have "generate g instructions profiles returnOnly skipInject w = (res, w')"
        by (simp add: generate_def is_object_def c)
      with i True ok c show ?thesis by simp
    qed
  qed
qed

theorem generate_invalid_input_iff_witness:
  "\<not> is_object JNull
   \<and> fst (generate example_generator JNull (JObj []) False False example_world)
       = Inl INVALID_INSTRUCTIONS
   \<and> is_object (JObj []) \<and> \<not> is_object (JStr ''DEVELOPER'')
   \<and> fst (generate example_generator (JObj []) (JStr ''DEVELOPER'') False False example_world)
       = Inl INVALID_PROFILES
   \<and> is_object (JArr [])
   \<and> generate example_generator (JObj []) (JArr []) False False example_world
       = generate_checked example_generator (JObj []) (JArr []) False False example_world"
  using generate_invalid_input_iff [of example_generator JNull "JObj []" False False example_world]
    generate_invalid_input_iff
      [of example_generator "JObj []" "JStr ''DEVELOPER''" False False example_world]
    generate_invalid_input_iff [of example_generator "JObj []" "JArr []" False False example_world]
  by (simp add: is_object_def)


subsection \<open>No effect before the validation (C10)\<close>

text \<open>
  C10. When \<open>generate\<close> raises one of the two invalid-input errors, the state it leaves
  is the state it was called in: no file is written or removed, no directory changes and
  nothing is printed.
\<close>

theorem generate_invalid_input_no_effect:
  assumes "generate g instructions profiles returnOnly skipInject w = (Inl e, w')"
    and "e = INVALID_INSTRUCTIONS \<or> e = INVALID_PROFILES"
  shows "w' = w"
proof (cases "is_object instructions \<and> is_object profiles")
  case True
  then have "generate g instructions profiles returnOnly skipInject w
               = generate_checked g instructions profiles returnOnly skipInject w"
    by (simp add: generate_def is_object_def)
  with assms(1) generate_checked_not_invalid [of g instructions profiles returnOnly skipInject w e w']
    assms(2) show ?thesis by auto
next
  case False
  then have "snd (generate g instructions profiles returnOnly skipInject w) = w"
    by (auto simp: generate_def is_object_def throw_def)
  with assms(1) show ?thesis by simp
qed

theorem generate_invalid_input_no_effect_witness:
  "fst (generate example_generator (JStr ''DEVELOPER'') (JObj []) False False example_world)
     = Inl INVALID_INSTRUCTIONS
   \<and> snd (generate example_generator (JStr ''DEVELOPER'') (JObj []) False False example_world)
       = example_world"
proof -
  obtain res w' where
    g: "generate example_generator (JStr ''DEVELOPER'') (JObj []) False False example_world
          = (res, w')"
    by (cases "generate example_generator (JStr ''DEVELOPER'') (JObj []) False False example_world")
  have "fst (generate example_generator (JStr ''DEVELOPER'') (JObj []) False False example_world)
          = Inl INVALID_INSTRUCTIONS"
    by (simp add: generate_def throw_def)
  with g have r: "res = Inl INVALID_INSTRUCTIONS" by simp
  from generate_invalid_input_no_effect [OF g [unfolded r]] have "w' = example_world" by simp
  with g r show ?thesis by simp
qed

end
